theory Spec2Isabelle
  imports
    Complex_Main
    "HOL-Library.Multiset"
    "HOL-Library.Product_Lexorder"
    "HOL-Library.List_Lexorder"
    "HOL-Library.Char_ord"
begin

section \<open>Instant-runoff voting: the vote table and the runoff engine of irv.py\<close>

text \<open>
  The model follows \<^verbatim>\<open>src/irv.py\<close> under Python 3: the file reads text answers with
  \<^verbatim>\<open>input\<close>, wraps \<^verbatim>\<open>map\<close> in \<^verbatim>\<open>list\<close> and rebuilds Python 2's \<^verbatim>\<open>zip\<close> as \<^verbatim>\<open>p3zip\<close>. A
  ballot is a list with one slot per candidate, holding an integer rank or \<^verbatim>\<open>None\<close>;
  Python's unbounded integers are \<^typ>\<open>int\<close>, counts of ballots are \<^typ>\<open>nat\<close>, names are
  strings. Every exception an operation can raise is a value of \<open>error\<close>, returned as
  \<open>Inl\<close>. No operation assigns into a list it was given (each builds new lists and
  rebinds fields of \<^verbatim>\<open>self\<close>), so tables are passed by value: a method that changes
  \<^verbatim>\<open>self\<close> returns the changed table.
\<close>

subsection \<open>Data\<close>

datatype error = TypeError | KeyError | ValueError | IndexError | AttributeError

type_synonym ballot = "int option list"

text \<open>The instance variables of class \<^verbatim>\<open>VoteTable\<close>.\<close>

record VoteTable =
  votes :: "ballot list"
  names :: "string list"
  counts :: "nat list list"
  N_votes :: nat
  N_candidates :: nat

text \<open>One candidate as the joint sort of \<^verbatim>\<open>update_counts\<close> sees it: the tuple
  \<^verbatim>\<open>(counts, votes_by_candidate, name)\<close>.\<close>

type_synonym entry = "nat list \<times> int option list \<times> string"

subsection \<open>\<^verbatim>\<open>p3zip\<close>: transposition\<close>

text \<open>
  \<^verbatim>\<open>[list(i) for i in zip(*item)]\<close>: \<^verbatim>\<open>zip\<close> stops at the shortest row, and
  \<^verbatim>\<open>zip()\<close> of no rows is empty.
\<close>

definition p3zip :: "'a list list \<Rightarrow> 'a list list" where
  "p3zip item =
     (if item = [] then []
      else map (\<lambda>i. map (\<lambda>row. row ! i) item) [0..<min_list (map length item)])"

subsection \<open>\<^verbatim>\<open>get_rank_order\<close>: rank normalisation of one ballot\<close>

text \<open>
  The generator \<^verbatim>\<open>(v, i) for (i, v) in enumerate(list) if v is not None\<close>. Its pairs
  are sorted as tuples of integers, which is the lexicographic order on pairs.
\<close>

definition ranked_pairs :: "ballot \<Rightarrow> (int \<times> nat) list" where
  "ranked_pairs xs =
     map (\<lambda>(i, v). (the v, i)) (filter (\<lambda>(i, v). v \<noteq> None) (enumerate 0 xs))"

definition sorted_indices :: "ballot \<Rightarrow> nat list" where
  "sorted_indices xs = map snd (sort (ranked_pairs xs))"

text \<open>
  The loop \<^verbatim>\<open>for (rank,index) in enumerate(indices): out[index] = rank+1\<close>. Every index
  comes from \<^verbatim>\<open>enumerate(list)\<close> and \<^verbatim>\<open>out\<close> is as long as the list, so the assignment
  is always in range.
\<close>

definition assign_ranks :: "nat list \<Rightarrow> ballot \<Rightarrow> ballot" where
  "assign_ranks indices out =
     fold (\<lambda>(rank, index) out. out[index := Some (int rank + 1)]) (enumerate 0 indices) out"

definition get_rank_order :: "ballot \<Rightarrow> ballot" where
  "get_rank_order xs =
     (let indices = sorted_indices xs;
          out = replicate (length xs) None
      in assign_ranks indices out)"

subsection \<open>Counting: the first loop of \<^verbatim>\<open>update_counts\<close>\<close>

text \<open>
  The dictionary \<^verbatim>\<open>counter\<close> is a map from ranks to counts. It starts with the keys
  \<^verbatim>\<open>1..N_candidates\<close>; \<^verbatim>\<open>counter[vote] += 1\<close> raises \<^verbatim>\<open>KeyError\<close> on any other rank and
  adds no key, so \<^verbatim>\<open>sorted(counter.items())\<close> lists the counts of the ranks
  \<^verbatim>\<open>1..N_candidates\<close> in this order.
\<close>

definition new_counter :: "nat \<Rightarrow> (int \<rightharpoonup> nat)" where
  "new_counter n = fold (\<lambda>i counter. counter(int i \<mapsto> 0)) [1..<Suc n] Map.empty"

fun tally :: "(int \<rightharpoonup> nat) \<Rightarrow> int option list \<Rightarrow> error + (int \<rightharpoonup> nat)" where
  "tally counter [] = Inr counter"
| "tally counter (None # rest) = tally counter rest"
| "tally counter (Some vote # rest) =
     (case counter vote of
        None \<Rightarrow> Inl KeyError
      | Some c \<Rightarrow> tally (counter(vote \<mapsto> c + 1)) rest)"

definition count_column :: "nat \<Rightarrow> int option list \<Rightarrow> error + nat list" where
  "count_column n col =
     (case tally (new_counter n) col of
        Inl e \<Rightarrow> Inl e
      | Inr counter \<Rightarrow> Inr (map (\<lambda>rank. the (counter (int rank))) [1..<Suc n]))"

text \<open>The loop over \<^verbatim>\<open>zip(self.names, self.votes_by_candidate())\<close>.\<close>

fun count_all :: "nat \<Rightarrow> (string \<times> int option list) list \<Rightarrow> error + nat list list" where
  "count_all n [] = Inr []"
| "count_all n ((candidate, col) # rest) =
     (case count_column n col of
        Inl e \<Rightarrow> Inl e
      | Inr c \<Rightarrow> (case count_all n rest of Inl e \<Rightarrow> Inl e | Inr cs \<Rightarrow> Inr (c # cs)))"

subsection \<open>The joint sort of \<^verbatim>\<open>update_counts\<close>\<close>

text \<open>
  Python 3 compares two lists at the first position where they differ and two tuples
  likewise. Two unequal slots of a ballot column are compared with \<^verbatim>\<open><\<close>, which raises
  \<^verbatim>\<open>TypeError\<close> unless both are integers.
\<close>

fun lt_slot :: "int option \<Rightarrow> int option \<Rightarrow> error + bool" where
  "lt_slot (Some a) (Some b) = Inr (a < b)"
| "lt_slot _ _ = Inl TypeError"

fun lt_column :: "int option list \<Rightarrow> int option list \<Rightarrow> error + bool" where
  "lt_column [] [] = Inr False"
| "lt_column [] (y # ys) = Inr True"
| "lt_column (x # xs) [] = Inr False"
| "lt_column (x # xs) (y # ys) = (if x = y then lt_column xs ys else lt_slot x y)"

fun lt_entry :: "entry \<Rightarrow> entry \<Rightarrow> error + bool" where
  "lt_entry (c1, v1, n1) (c2, v2, n2) =
     (if c1 \<noteq> c2 then Inr (c1 < c2)
      else if v1 \<noteq> v2 then lt_column v1 v2
      else Inr (n1 < n2))"

text \<open>
  \<^verbatim>\<open>sorted\<close> as a stable insertion sort that asks only \<^verbatim>\<open><\<close>, as Python's sort does, and
  stops at the first comparison that raises. Which pairs a sort compares is its own
  affair, but the outcome is not: a comparison sort that returns has compared the
  neighbours of its result, and where neighbours are comparable all entries are
  (\<open>lt_entry_trans\<close>). Lemma \<open>sorted_py_succeeds_iff\<close> shows the same of this model: it
  returns exactly when every two entries are comparable, and then returns them in
  ascending order (\<open>sorted_py_Inr\<close>).
\<close>

fun insort_py :: "('a \<Rightarrow> 'a \<Rightarrow> error + bool) \<Rightarrow> 'a \<Rightarrow> 'a list \<Rightarrow> error + 'a list" where
  "insort_py lt x [] = Inr [x]"
| "insort_py lt x (y # ys) =
     (case lt y x of
        Inl e \<Rightarrow> Inl e
      | Inr True \<Rightarrow> (case insort_py lt x ys of Inl e \<Rightarrow> Inl e | Inr zs \<Rightarrow> Inr (y # zs))
      | Inr False \<Rightarrow> Inr (x # y # ys))"

fun sorted_py :: "('a \<Rightarrow> 'a \<Rightarrow> error + bool) \<Rightarrow> 'a list \<Rightarrow> error + 'a list" where
  "sorted_py lt [] = Inr []"
| "sorted_py lt (x # xs) =
     (case sorted_py lt xs of Inl e \<Rightarrow> Inl e | Inr ys \<Rightarrow> insort_py lt x ys)"

subsection \<open>The methods of \<^verbatim>\<open>VoteTable\<close>\<close>

definition votes_by_candidate :: "VoteTable \<Rightarrow> int option list list" where
  "votes_by_candidate self = p3zip (votes self)"

definition reduce_ranks :: "VoteTable \<Rightarrow> VoteTable" where
  "reduce_ranks self = self\<lparr>votes := map get_rank_order (votes self)\<rparr>"

text \<open>
  \<^verbatim>\<open>update_counts\<close>: count, sort the triples, and unpack
  \<^verbatim>\<open>(counts,votes_by_candidate,names) = zip(*sorted(...))\<close>, which raises \<^verbatim>\<open>ValueError\<close>
  when the sorted list is empty (nothing to unpack).
\<close>

definition update_counts :: "VoteTable \<Rightarrow> error + VoteTable" where
  "update_counts self =
     (case count_all (N_candidates self) (zip (names self) (votes_by_candidate self)) of
        Inl e \<Rightarrow> Inl e
      | Inr cs \<Rightarrow>
          (case sorted_py lt_entry (zip cs (zip (votes_by_candidate self) (names self))) of
             Inl e \<Rightarrow> Inl e
           | Inr [] \<Rightarrow> Inl ValueError
           | Inr sorted_entries \<Rightarrow>
               Inr (self\<lparr>votes := p3zip (map (\<lambda>(c, v, n). v) sorted_entries),
                         counts := map (\<lambda>(c, v, n). c) sorted_entries,
                         names := map (\<lambda>(c, v, n). n) sorted_entries\<rparr>)))"

definition maintain :: "VoteTable \<Rightarrow> error + VoteTable" where
  "maintain self =
     update_counts
       (reduce_ranks (self\<lparr>N_votes := length (votes self),
                           N_candidates := length (names self)\<rparr>))"

text \<open>
  The constructor \<^verbatim>\<open>VoteTable(votes, names)\<close>. The fields that \<^verbatim>\<open>maintain\<close> sets do not
  exist before it runs; their initial values here are never read.
\<close>

definition new_VoteTable :: "ballot list \<Rightarrow> string list \<Rightarrow> error + VoteTable" where
  "new_VoteTable vs ns =
     maintain \<lparr>votes = vs, names = ns, counts = [], N_votes = 0, N_candidates = 0\<rparr>"

definition copy :: "VoteTable \<Rightarrow> error + VoteTable" where
  "copy self = new_VoteTable (votes self) (names self)"

text \<open>
  \<^verbatim>\<open>self.counts[-1][0] > self.N_votes/2\<close>: an integer against a true quotient. Half of a
  ballot count is exact in a float and Python compares an integer with a float exactly,
  so the comparison is the one of the real numbers. \<^verbatim>\<open>counts[-1]\<close>, \<^verbatim>\<open>[0]\<close> and
  \<^verbatim>\<open>names[-1]\<close> raise \<^verbatim>\<open>IndexError\<close> on an empty sequence.
\<close>

definition compute_winner :: "VoteTable \<Rightarrow> error + string option" where
  "compute_winner self =
     (if counts self = [] then Inl IndexError
      else if last (counts self) = [] then Inl IndexError
      else if real (hd (last (counts self))) > real (N_votes self) / 2
      then (if names self = [] then Inl IndexError else Inr (Some (last (names self))))
      else Inr None)"

definition check_tied :: "VoteTable \<Rightarrow> error + bool" where
  "check_tied self =
     (if length (counts self) < 2 then Inl IndexError
      else
        let counts_equal = (last (counts self) = counts self ! (length (counts self) - 2));
            counts_nonzero = (sum_list (last (counts self)) > 0)
        in Inr (counts_equal \<and> counts_nonzero))"

text \<open>
  \<^verbatim>\<open>with_candidate_eliminated\<close>. The index is a natural number: the engine passes
  \<^verbatim>\<open>0\<close>, the result of \<^verbatim>\<open>names.index\<close>, or the answer to its prompt. A slice past the
  end is empty, as \<open>take\<close> and \<open>drop\<close> are.
\<close>

definition with_candidate_eliminated :: "VoteTable \<Rightarrow> nat \<Rightarrow> error + VoteTable" where
  "with_candidate_eliminated self index =
     (let vs = votes_by_candidate self;
          new_votes = take index vs @ drop (index + 1) vs;
          new_names = take index (names self) @ drop (index + 1) (names self)
      in new_VoteTable (p3zip new_votes) new_names)"

text \<open>
  \<^verbatim>\<open>print_table\<close>. It measures the names, prints a line of asterisks and then calls
  \<^verbatim>\<open>string.ljust\<close> (line 204). The module \<^verbatim>\<open>string\<close> of Python 3 has no such
  function, so the call raises \<^verbatim>\<open>AttributeError\<close>, on every table and before the
  method reads anything else of it. What is printed until then is not modelled.
\<close>

definition print_table :: "VoteTable \<Rightarrow> error + unit" where
  "print_table self = Inl AttributeError"

subsection \<open>\<^verbatim>\<open>instant_runoff\<close> in automated mode\<close>

text \<open>
  With \<^verbatim>\<open>is_automated\<close> true the function talks to its user at one place only: when
  \<^verbatim>\<open>check_tied\<close> holds it prints the table and reads the index of the candidate to
  eliminate. The loops below take that exchange as a parameter \<open>prompt\<close>: given the
  table it answers with an index, or with the exception that the exchange raised.
\<close>

type_synonym prompt = "VoteTable \<Rightarrow> error + nat"

text \<open>
  The exchange as the file has it (lines 297, 298 and 303): \<^verbatim>\<open>table.print_table()\<close>,
  then \<^verbatim>\<open>loser_index = input(...)\<close>, then \<^verbatim>\<open>loser_index\<close> as the bound of the slices
  of \<^verbatim>\<open>with_candidate_eliminated\<close>. \<open>typed\<close> is what the user types when shown a
  table. \<^verbatim>\<open>input\<close> returns it as a string, and a string as a slice bound raises
  \<^verbatim>\<open>TypeError\<close>; \<^verbatim>\<open>print_table\<close> raises before that. Either way the answer is an
  exception and never an index.
\<close>

definition tie_prompt :: "(VoteTable \<Rightarrow> string) \<Rightarrow> prompt" where
  "tie_prompt typed table =
     (case print_table table of
        Inl e \<Rightarrow> Inl e
      | Inr u \<Rightarrow> (let loser_index = typed table in Inl TypeError))"

datatype round_result = Winner string | Ineligible string

fun result_name :: "round_result \<Rightarrow> string" where
  "result_name (Winner w) = w"
| "result_name (Ineligible u) = u"

record results =
  ranking :: "string list"
  ineligible_candidates :: "string list"

text \<open>The choice of \<^verbatim>\<open>loser_index\<close> (automated branch).\<close>

definition choose_loser :: "prompt \<Rightarrow> VoteTable \<Rightarrow> error + nat" where
  "choose_loser prompt table =
     (case check_tied table of
        Inl e \<Rightarrow> Inl e
      | Inr tied \<Rightarrow> if \<not> tied then Inr 0 else prompt table)"

text \<open>
  One pass through the body of \<^verbatim>\<open>while True\<close>: \<open>Inr (Inl r)\<close> is a \<^verbatim>\<open>break\<close> with the
  round's result, \<open>Inr (Inr table')\<close> the table the next pass starts from.
  \<^verbatim>\<open>(unlucky_soul,) = table.names\<close> raises \<^verbatim>\<open>ValueError\<close> unless there is one name.
\<close>

definition round_body :: "prompt \<Rightarrow> VoteTable \<Rightarrow> error + (round_result + VoteTable)" where
  "round_body prompt table =
     (case compute_winner table of
        Inl e \<Rightarrow> Inl e
      | Inr None \<Rightarrow>
          if N_candidates table = 1
          then (case names table of
                  [unlucky_soul] \<Rightarrow> Inr (Inl (Ineligible unlucky_soul))
                | _ \<Rightarrow> Inl ValueError)
          else (case choose_loser prompt table of
                  Inl e \<Rightarrow> Inl e
                | Inr loser_index \<Rightarrow>
                    (case with_candidate_eliminated table loser_index of
                       Inl e \<Rightarrow> Inl e
                     | Inr table' \<Rightarrow> Inr (Inr table')))
      | Inr (Some winner) \<Rightarrow> Inr (Inl (Winner winner)))"

text \<open>
  The loop itself. It returns the round's result together with the table it stopped
  on; \<open>None\<close> is a loop that never exits.
\<close>

partial_function (option) runoff_round ::
    "prompt \<Rightarrow> VoteTable \<Rightarrow> (error + round_result \<times> VoteTable) option" where
  "runoff_round prompt table =
     (case round_body prompt table of
        Inl e \<Rightarrow> Some (Inl e)
      | Inr (Inl r) \<Rightarrow> Some (Inr (r, table))
      | Inr (Inr table') \<Rightarrow> runoff_round prompt table')"

declare runoff_round.simps [code]

text \<open>\<^verbatim>\<open>list.index\<close>: the first position of a value, \<^verbatim>\<open>ValueError\<close> when absent.\<close>

fun index_py :: "'a list \<Rightarrow> 'a \<Rightarrow> error + nat" where
  "index_py [] x = Inl ValueError"
| "index_py (y # ys) x =
     (if y = x then Inr 0
      else (case index_py ys x of Inl e \<Rightarrow> Inl e | Inr i \<Rightarrow> Inr (Suc i)))"

text \<open>
  The body of \<^verbatim>\<open>for rank in range(N)\<close> on the loop's variables
  \<^verbatim>\<open>(table, ranking, ineligible_candidates)\<close>, here \<open>(table, ranked, ineligible)\<close>.
\<close>

definition rank_body ::
    "prompt \<Rightarrow> nat \<Rightarrow> nat \<Rightarrow> VoteTable \<times> string list \<times> string list \<Rightarrow>
       (error + VoteTable \<times> string list \<times> string list) option" where
  "rank_body prompt N rank state =
     (case state of (table, ranked, ineligible) \<Rightarrow>
        (case copy table of
           Inl e \<Rightarrow> Some (Inl e)
         | Inr full_table \<Rightarrow>
             (case runoff_round prompt table of
                None \<Rightarrow> None
              | Some (Inl e) \<Rightarrow> Some (Inl e)
              | Some (Inr (r, reduced)) \<Rightarrow>
                  let winner = result_name r;
                      ranked' = (case r of Winner w \<Rightarrow> ranked @ [w] | Ineligible u \<Rightarrow> ranked);
                      ineligible' =
                        (case r of Winner w \<Rightarrow> ineligible | Ineligible u \<Rightarrow> ineligible @ [u])
                  in if rank \<noteq> N - 1
                     then (case index_py (names full_table) winner of
                             Inl e \<Rightarrow> Some (Inl e)
                           | Inr i \<Rightarrow>
                               (case with_candidate_eliminated full_table i of
                                  Inl e \<Rightarrow> Some (Inl e)
                                | Inr table' \<Rightarrow> Some (Inr (table', ranked', ineligible'))))
                     else Some (Inr (reduced, ranked', ineligible')))))"

fun rank_loop ::
    "prompt \<Rightarrow> nat \<Rightarrow> nat list \<Rightarrow> VoteTable \<times> string list \<times> string list \<Rightarrow>
       (error + VoteTable \<times> string list \<times> string list) option" where
  "rank_loop prompt N [] state = Some (Inr state)"
| "rank_loop prompt N (rank # ranks) state =
     (case rank_body prompt N rank state of
        None \<Rightarrow> None
      | Some (Inl e) \<Rightarrow> Some (Inl e)
      | Some (Inr state') \<Rightarrow> rank_loop prompt N ranks state')"

definition instant_runoff :: "prompt \<Rightarrow> VoteTable \<Rightarrow> (error + results) option" where
  "instant_runoff prompt table =
     (let N = N_candidates table in
      case rank_loop prompt N [0..<N] (table, [], []) of
        None \<Rightarrow> None
      | Some (Inl e) \<Rightarrow> Some (Inl e)
      | Some (Inr (table', ranked, ineligible)) \<Rightarrow>
          Some (Inr \<lparr>ranking = ranked, ineligible_candidates = ineligible\<rparr>))"

subsection \<open>Vocabulary of the statements\<close>

text \<open>
  The following definitions are not in the source: they name what the theorems below
  say about it. \<open>histogram n col\<close> is the count vector of a ballot column, \<open>aligned\<close> says
  that every ballot has one slot per candidate name, \<open>entries\<close> are the triples the joint
  sort orders, read back from a table, \<open>entry_le\<close> is the order in which \<open>lt_entry\<close>
  answers, \<open>comparable\<close> says that no comparison among the entries raises, and
  \<open>wf_table\<close> collects what holds of every table built from aligned ballots.
\<close>

definition histogram :: "nat \<Rightarrow> int option list \<Rightarrow> nat list" where
  "histogram n col = map (\<lambda>rank. count_list col (Some (int rank))) [1..<Suc n]"

definition aligned :: "ballot list \<Rightarrow> string list \<Rightarrow> bool" where
  "aligned vs ns = list_all (\<lambda>b. length b = length ns) vs"

definition entries :: "VoteTable \<Rightarrow> entry list" where
  "entries t = zip (counts t) (zip (p3zip (votes t)) (names t))"

definition entry_le :: "entry \<Rightarrow> entry \<Rightarrow> bool" where
  "entry_le a b = (a = b \<or> lt_entry a b = Inr True)"

definition comparable :: "entry list \<Rightarrow> bool" where
  "comparable xs = list_all (\<lambda>a. list_all (\<lambda>b. lt_entry a b \<noteq> Inl TypeError) xs) xs"

definition wf_table :: "VoteTable \<Rightarrow> bool" where
  "wf_table t =
     (N_votes t = length (votes t) \<and> N_candidates t = length (names t) \<and>
      votes t \<noteq> [] \<and> names t \<noteq> [] \<and> aligned (votes t) (names t) \<and>
      counts t = map (histogram (length (names t))) (p3zip (votes t)))"

text \<open>
  \<open>eliminates prompt t t'\<close>: one pass of the loop of a round leaves table \<open>t\<close> by
  eliminating a candidate and continues with \<open>t'\<close>. Its \<open>k\<close>-fold iterate counts the
  eliminations of a round.
\<close>

definition eliminates :: "prompt \<Rightarrow> VoteTable \<Rightarrow> VoteTable \<Rightarrow> bool" where
  "eliminates prompt t t' = (round_body prompt t = Inr (Inr t'))"

subsection \<open>The claims in their own words\<close>

text \<open>
  Three definitions that follow the specification, not the source; the counterexamples
  below compare them with what the source computes. \<open>claimed_order\<close>: the candidates
  ascend by count vector, ties broken by name. \<open>weakest_two_tied\<close>: the two candidates
  at the front of the sorted order have the same count vector, and it is not all zeros.
  \<open>claimed_choose_loser\<close>: eliminate index \<open>0\<close> unless the two weakest are so tied.
\<close>

definition claimed_order :: "VoteTable \<Rightarrow> bool" where
  "claimed_order t =
     sorted_wrt (\<lambda>(c1, n1) (c2, n2). c1 < c2 \<or> (c1 = c2 \<and> n1 \<le> n2)) (zip (counts t) (names t))"

definition weakest_two_tied :: "VoteTable \<Rightarrow> bool" where
  "weakest_two_tied t = (counts t ! 0 = counts t ! 1 \<and> sum_list (counts t ! 0) > 0)"

definition claimed_choose_loser :: "prompt \<Rightarrow> VoteTable \<Rightarrow> error + nat" where
  "claimed_choose_loser prompt t = (if \<not> weakest_two_tied t then Inr 0 else prompt t)"

section \<open>Rank normalisation\<close>

lemma ranked_pairs_set:
  "set (ranked_pairs xs) = {(a, i). i < length xs \<and> xs ! i = Some a}"
  by (auto simp: ranked_pairs_def in_set_enumerate_eq image_iff)

lemma ranked_pairs_distinct: "distinct (map snd (ranked_pairs xs))"
proof -
  have "map snd (ranked_pairs xs) = map fst (filter (\<lambda>(i, v). v \<noteq> None) (enumerate 0 xs))"
    by (simp add: ranked_pairs_def case_prod_beta comp_def)
  moreover have "distinct (map fst (enumerate 0 xs))"
    by simp
  ultimately show ?thesis
    by (simp add: distinct_map_filter)
qed

lemma fold_assign_nth:
  "distinct idxs \<Longrightarrow> \<forall>i \<in> set idxs. i < length acc \<Longrightarrow>
   length (fold (\<lambda>(rank, index) out. out[index := Some (int rank + 1)]) (enumerate k idxs) acc)
     = length acc \<and>
   (\<forall>j < length idxs.
      fold (\<lambda>(rank, index) out. out[index := Some (int rank + 1)]) (enumerate k idxs) acc
        ! (idxs ! j) = Some (int (k + j) + 1)) \<and>
   (\<forall>i. i \<notin> set idxs \<longrightarrow>
      fold (\<lambda>(rank, index) out. out[index := Some (int rank + 1)]) (enumerate k idxs) acc ! i
        = acc ! i)"
proof (induction idxs arbitrary: k acc)
  case Nil
  then show ?case by simp
next
  case (Cons x idxs)
  let ?f = "\<lambda>(rank, index) out. out[index := Some (int rank + 1)]"
  let ?acc = "acc[x := Some (int k + 1)]"
  have d: "distinct idxs" and xn: "x \<notin> set idxs" using Cons.prems(1) by auto
  have b: "\<forall>i \<in> set idxs. i < length ?acc" using Cons.prems(2) by simp
  note ih = Cons.IH[OF d b, of "Suc k"]
  have unf: "fold ?f (enumerate k (x # idxs)) acc = fold ?f (enumerate (Suc k) idxs) ?acc"
    by simp
  have xl: "x < length acc" using Cons.prems(2) by simp
  show ?case
  proof (intro conjI allI impI)
    show "length (fold ?f (enumerate k (x # idxs)) acc) = length acc"
      using ih unf by simp
  next
    fix j assume j: "j < length (x # idxs)"
    show "fold ?f (enumerate k (x # idxs)) acc ! ((x # idxs) ! j) = Some (int (k + j) + 1)"
    proof (cases j)
      case 0
      then show ?thesis using ih xn xl unf by simp
    next
      case (Suc j')
      then have "j' < length idxs" using j by simp
      then show ?thesis using ih Suc unf by simp
    qed
  next
    fix i assume "i \<notin> set (x # idxs)"
    then show "fold ?f (enumerate k (x # idxs)) acc ! i = acc ! i"
      using ih unf by simp
  qed
qed

lemma assign_ranks_props:
  assumes "distinct idxs" and "\<forall>i \<in> set idxs. i < n"
  shows "length (assign_ranks idxs (replicate n None)) = n"
    and "j < length idxs \<Longrightarrow> assign_ranks idxs (replicate n None) ! (idxs ! j) = Some (int j + 1)"
    and "i < n \<Longrightarrow> i \<notin> set idxs \<Longrightarrow> assign_ranks idxs (replicate n None) ! i = None"
  using fold_assign_nth[of idxs "replicate n None" 0] assms
  by (simp_all add: assign_ranks_def)

lemma sorted_indices_distinct: "distinct (sorted_indices xs)"
proof -
  have "mset (map snd (sort (ranked_pairs xs))) = mset (map snd (ranked_pairs xs))"
    by simp
  then show ?thesis
    unfolding sorted_indices_def
    using ranked_pairs_distinct[of xs] mset_eq_imp_distinct_iff by blast
qed

lemma sorted_indices_set:
  "set (sorted_indices xs) = {i. i < length xs \<and> xs ! i \<noteq> None}"
proof -
  have "set (sorted_indices xs) = snd ` set (ranked_pairs xs)"
    by (simp add: sorted_indices_def)
  then show ?thesis
    by (auto simp: ranked_pairs_set image_iff)
qed

lemma length_filter_enumerate:
  "length (filter (\<lambda>(i, v). P v) (enumerate n xs)) = length (filter P xs)"
  by (induction xs arbitrary: n) auto

lemma sorted_indices_length:
  "length (sorted_indices xs) = length (filter (\<lambda>v. v \<noteq> None) xs)"
  by (simp only: sorted_indices_def ranked_pairs_def length_map length_sort
        length_filter_enumerate)

lemma get_rank_order_eq: "get_rank_order xs = assign_ranks (sorted_indices xs) (replicate (length xs) None)"
  by (simp add: get_rank_order_def)

lemma get_rank_order_length: "length (get_rank_order xs) = length xs"
  using assign_ranks_props(1)[OF sorted_indices_distinct, of xs "length xs"]
  by (simp add: get_rank_order_eq sorted_indices_set)

lemma get_rank_order_None:
  "i < length xs \<Longrightarrow> xs ! i = None \<Longrightarrow> get_rank_order xs ! i = None"
  using assign_ranks_props(3)[OF sorted_indices_distinct, of xs "length xs" i]
  by (simp add: get_rank_order_eq sorted_indices_set)

lemma get_rank_order_pos:
  "j < length (sorted_indices xs) \<Longrightarrow>
   get_rank_order xs ! (sorted_indices xs ! j) = Some (int j + 1)"
  using assign_ranks_props(2)[OF sorted_indices_distinct, of xs "length xs" j]
  by (simp add: get_rank_order_eq sorted_indices_set)

lemma sorted_indices_order:
  assumes "i < length xs" "j < length xs" "xs ! i = Some a" "xs ! j = Some b" "a < b"
  shows "\<exists>p q. p < q \<and> q < length (sorted_indices xs) \<and>
               sorted_indices xs ! p = i \<and> sorted_indices xs ! q = j"
proof -
  let ?s = "sort (ranked_pairs xs)"
  have "(a, i) \<in> set ?s" "(b, j) \<in> set ?s"
    using assms by (simp_all add: ranked_pairs_set)
  then obtain p q where p: "p < length ?s" "?s ! p = (a, i)" and q: "q < length ?s" "?s ! q = (b, j)"
    by (meson in_set_conv_nth)
  have "sorted ?s" by simp
  have "p < q"
  proof (rule ccontr)
    assume "\<not> p < q"
    then have "q \<le> p" by simp
    then have "?s ! q \<le> ?s ! p" using \<open>sorted ?s\<close> p(1) by (simp add: sorted_nth_mono)
    then show False using p q assms(5) by (simp add: less_eq_prod_def)
  qed
  moreover have "sorted_indices xs ! p = i" "sorted_indices xs ! q = j"
    using p q by (simp_all add: sorted_indices_def)
  moreover have "q < length (sorted_indices xs)"
    using q(1) by (simp add: sorted_indices_def)
  ultimately show ?thesis by blast
qed

lemma get_rank_order_Some:
  assumes "i < length xs" "xs ! i \<noteq> None"
  shows "\<exists>p < length (sorted_indices xs). sorted_indices xs ! p = i \<and> get_rank_order xs ! i = Some (int p + 1)"
proof -
  have "i \<in> set (sorted_indices xs)" using assms by (simp add: sorted_indices_set)
  then obtain p where "p < length (sorted_indices xs)" "sorted_indices xs ! p = i"
    by (meson in_set_conv_nth)
  then show ?thesis using get_rank_order_pos[of p xs] by auto
qed

lemma get_rank_order_None_iff:
  assumes "i < length xs"
  shows "(get_rank_order xs ! i = None) = (xs ! i = None)"
proof (cases "xs ! i")
  case None
  then show ?thesis using assms get_rank_order_None[of i xs] by simp
next
  case (Some a)
  then obtain p where "get_rank_order xs ! i = Some (int p + 1)"
    using assms get_rank_order_Some[of i xs] by auto
  then show ?thesis using Some by simp
qed

lemma get_rank_order_mset:
  "mset (filter (\<lambda>v. v \<noteq> None) (get_rank_order xs)) =
   mset (map (\<lambda>r. Some (int r)) [1..<Suc (length (filter (\<lambda>v. v \<noteq> None) xs))])"
proof -
  let ?out = "get_rank_order xs" and ?idx = "sorted_indices xs"
  let ?k = "length (filter (\<lambda>v. v \<noteq> None) xs)"
  have len: "length ?out = length xs" by (rule get_rank_order_length)
  have none_iff: "(?out ! i \<noteq> None) = (i \<in> set ?idx)" if h: "i < length xs" for i
    using h get_rank_order_None_iff[of i xs] by (simp add: sorted_indices_set)
  have "filter (\<lambda>v. v \<noteq> None) ?out = filter (\<lambda>v. v \<noteq> None) (map (\<lambda>i. ?out ! i) [0..<length xs])"
    using len by (metis map_nth)
  also have "\<dots> = map (\<lambda>i. ?out ! i) (filter (\<lambda>i. ?out ! i \<noteq> None) [0..<length xs])"
    by (simp add: filter_map comp_def)
  also have "filter (\<lambda>i. ?out ! i \<noteq> None) [0..<length xs] = filter (\<lambda>i. i \<in> set ?idx) [0..<length xs]"
  proof (rule filter_cong)
    fix i assume "i \<in> set [0..<length xs]"
    then have "i < length xs" by simp
    then show "(?out ! i \<noteq> None) = (i \<in> set ?idx)" by (rule none_iff)
  qed simp
  finally have e1: "filter (\<lambda>v. v \<noteq> None) ?out = map (\<lambda>i. ?out ! i) (filter (\<lambda>i. i \<in> set ?idx) [0..<length xs])" .
  have "mset (filter (\<lambda>i. i \<in> set ?idx) [0..<length xs]) = mset ?idx"
  proof (rule set_eq_iff_mset_eq_distinct[THEN iffD1])
    show "distinct (filter (\<lambda>i. i \<in> set ?idx) [0..<length xs])" by simp
    show "distinct ?idx" by (rule sorted_indices_distinct)
    show "set (filter (\<lambda>i. i \<in> set ?idx) [0..<length xs]) = set ?idx"
      by (auto simp: sorted_indices_set)
  qed
  then have "mset (map (\<lambda>i. ?out ! i) (filter (\<lambda>i. i \<in> set ?idx) [0..<length xs]))
           = mset (map (\<lambda>i. ?out ! i) ?idx)"
    by (metis mset_map)
  also have "map (\<lambda>i. ?out ! i) ?idx = map (\<lambda>j. ?out ! (?idx ! j)) [0..<length ?idx]"
    by (simp add: map_nth map_equality_iff)
  also have "\<dots> = map (\<lambda>j. Some (int j + 1)) [0..<length ?idx]"
    by (rule map_cong) (auto simp: get_rank_order_pos)
  also have "\<dots> = map (\<lambda>r. Some (int r)) (map Suc [0..<length ?idx])"
    by (simp add: comp_def add.commute)
  also have "map Suc [0..<length ?idx] = [1..<Suc ?k]"
    by (simp add: map_Suc_upt sorted_indices_length)
  finally show ?thesis using e1 by simp
qed

text \<open>
  Claim C6. For every ballot \<open>xs\<close>, \<open>get_rank_order xs\<close> has the length of \<open>xs\<close>; a slot is an
  abstention after normalisation exactly when it was one before; the ranks in the
  other slots are, as a multiset, exactly \<open>1, \<dots>, k\<close> for \<open>k\<close> the number of non-abstaining
  slots; and a slot that held a smaller rank than another holds a smaller rank afterwards.
\<close>

theorem get_rank_order_normalizes:
  "length (get_rank_order xs) = length xs \<and>
   (\<forall>i < length xs. (get_rank_order xs ! i = None) = (xs ! i = None)) \<and>
   mset (filter (\<lambda>v. v \<noteq> None) (get_rank_order xs)) =
     mset (map (\<lambda>r. Some (int r)) [1..<Suc (length (filter (\<lambda>v. v \<noteq> None) xs))]) \<and>
   (\<forall>i < length xs. \<forall>j < length xs. \<forall>a b. xs ! i = Some a \<and> xs ! j = Some b \<and> a < b \<longrightarrow>
      (\<exists>p q. get_rank_order xs ! i = Some p \<and> get_rank_order xs ! j = Some q \<and> p < q))"
proof (intro conjI allI impI)
  show "length (get_rank_order xs) = length xs" by (rule get_rank_order_length)
next
  fix i assume "i < length xs"
  then show "(get_rank_order xs ! i = None) = (xs ! i = None)"
    by (rule get_rank_order_None_iff)
next
  show "mset (filter (\<lambda>v. v \<noteq> None) (get_rank_order xs)) =
     mset (map (\<lambda>r. Some (int r)) [1..<Suc (length (filter (\<lambda>v. v \<noteq> None) xs))])"
    by (rule get_rank_order_mset)
next
  fix i j a b
  assume ij: "i < length xs" "j < length xs" and ab: "xs ! i = Some a \<and> xs ! j = Some b \<and> a < b"
  then obtain p q where pq: "p < q" "q < length (sorted_indices xs)"
      "sorted_indices xs ! p = i" "sorted_indices xs ! q = j"
    using sorted_indices_order[of i xs j a b] by auto
  then have "get_rank_order xs ! i = Some (int p + 1)" "get_rank_order xs ! j = Some (int q + 1)"
    using get_rank_order_pos[of p xs] get_rank_order_pos[of q xs] by auto
  then show "\<exists>p q. get_rank_order xs ! i = Some p \<and> get_rank_order xs ! j = Some q \<and> p < q"
    using pq(1) by simp
qed

theorem get_rank_order_normalizes_witness:
  "get_rank_order [Some 5, None, Some 4] = [Some 2, None, Some 1] \<and>
   length (get_rank_order [Some 5, None, Some 4]) = 3 \<and>
   (get_rank_order [Some 5, None, Some 4] ! 1 = None) \<and>
   mset (filter (\<lambda>v. v \<noteq> None) (get_rank_order [Some 5, None, Some 4])) = {#Some 1, Some 2#} \<and>
   (\<exists>p q. get_rank_order [Some 5, None, Some 4] ! 2 = Some p \<and>
          get_rank_order [Some 5, None, Some 4] ! 0 = Some q \<and> p < q)"
proof -
  have e: "get_rank_order [Some 5, None, Some 4] = [Some 2, None, Some 1]"
    by code_simp
  have "\<exists>p q. get_rank_order [Some 5, None, Some 4] ! 2 = Some p \<and>
          get_rank_order [Some 5, None, Some 4] ! 0 = Some q \<and> p < q"
    using get_rank_order_normalizes [of "[Some 5, None, Some 4]"] by simp
  then show ?thesis using e by simp
qed

section \<open>Transposition and counting\<close>

subsection \<open>Transposition\<close>

lemma min_list_const:
  assumes "item \<noteq> []" "\<forall>row \<in> set item. length row = n"
  shows "min_list (map length item) = n"
proof -
  have "set (map length item) = {n}" using assms by (cases item) auto
  then show ?thesis using assms(1) by (simp add: min_list_Min del: set_map)
qed

lemma p3zip_rect_length:
  assumes "item \<noteq> []" "\<forall>row \<in> set item. length row = n"
  shows "length (p3zip item) = n"
  using assms min_list_const[OF assms] by (simp add: p3zip_def)

lemma p3zip_rect_nth:
  assumes "item \<noteq> []" "\<forall>row \<in> set item. length row = n" "i < n"
  shows "p3zip item ! i = map (\<lambda>row. row ! i) item"
  using assms min_list_const[OF assms(1,2)] by (simp add: p3zip_def)

lemma p3zip_rect_rows:
  assumes "item \<noteq> []" "\<forall>row \<in> set item. length row = n"
  shows "\<forall>col \<in> set (p3zip item). length col = length item"
  using assms by (auto simp: p3zip_def)

lemma p3zip_rect_eq:
  assumes "item \<noteq> []" "\<forall>row \<in> set item. length row = n"
  shows "p3zip item = map (\<lambda>i. map (\<lambda>row. row ! i) item) [0..<n]"
  using assms min_list_const[OF assms] by (simp add: p3zip_def)

lemma p3zip_involution:
  assumes "item \<noteq> []" "\<forall>row \<in> set item. length row = n" "0 < n"
  shows "p3zip (p3zip item) = item"
proof -
  let ?t = "p3zip item"
  have tne: "?t \<noteq> []" using p3zip_rect_length[OF assms(1,2)] assms(3) by auto
  have trows: "\<forall>col \<in> set ?t. length col = length item"
    by (rule p3zip_rect_rows[OF assms(1,2)])
  have len: "length (p3zip ?t) = length item"
    by (rule p3zip_rect_length[OF tne trows])
  show ?thesis
  proof (rule nth_equalityI)
    show "length (p3zip ?t) = length item" by (rule len)
  next
    fix k assume "k < length (p3zip ?t)"
    then have k: "k < length item" using len by simp
    have "p3zip ?t ! k = map (\<lambda>col. col ! k) ?t"
      by (rule p3zip_rect_nth[OF tne trows k])
    also have "\<dots> = map (\<lambda>i. item ! k ! i) [0..<n]"
      using k by (simp add: p3zip_rect_eq[OF assms(1,2)])
    also have "\<dots> = item ! k"
      using assms(2) k by (metis map_nth nth_mem)
    finally show "p3zip ?t ! k = item ! k" .
  qed
qed

subsection \<open>Counting\<close>

lemma new_counter_apply:
  "new_counter n r = (if 1 \<le> r \<and> r \<le> int n then Some 0 else None)"
proof -
  have "fold (\<lambda>i counter. counter(int i \<mapsto> 0)) [1..<Suc n] m r
        = (if 1 \<le> r \<and> r \<le> int n then Some 0 else m r)" for m :: "int \<rightharpoonup> nat"
  proof (induction n arbitrary: m)
    case 0
    then show ?case by auto
  next
    case (Suc n)
    have "[1..<Suc (Suc n)] = [1..<Suc n] @ [Suc n]" by simp
    then show ?case using Suc by (auto simp del: upt_Suc)
  qed
  then show ?thesis by (simp add: new_counter_def)
qed

lemma tally_Inr:
  "tally counter col = Inr counter' \<Longrightarrow>
   dom counter' = dom counter \<and>
   (\<forall>r \<in> dom counter. counter' r = Some (the (counter r) + count_list col (Some r)))"
proof (induction counter col rule: tally.induct)
  case (1 counter)
  then show ?case by auto
next
  case (2 counter rest)
  then show ?case by simp
next
  case (3 counter vote rest)
  then obtain c where c: "counter vote = Some c" by (auto split: option.splits)
  with 3 have t: "tally (counter(vote \<mapsto> c + 1)) rest = Inr counter'" by simp
  from 3(1)[OF c t] c show ?case by (auto simp: dom_def)
qed

lemma count_column_Inr:
  assumes "count_column n col = Inr c"
  shows "c = histogram n col"
proof -
  from assms obtain counter where t: "tally (new_counter n) col = Inr counter"
    and c: "c = map (\<lambda>rank. the (counter (int rank))) [1..<Suc n]"
    by (auto simp: count_column_def split: sum.splits)
  have "\<forall>r \<in> dom (new_counter n). counter r = Some (the (new_counter n r) + count_list col (Some r))"
    using tally_Inr[OF t] by simp
  then have "\<And>rank. rank \<in> set [1..<Suc n] \<Longrightarrow> the (counter (int rank)) = count_list col (Some (int rank))"
    by (auto simp: new_counter_apply dom_def)
  then show ?thesis unfolding c histogram_def by (intro map_cong) auto
qed

lemma count_all_Inr:
  "count_all n xs = Inr cs \<Longrightarrow> cs = map (\<lambda>(candidate, col). histogram n col) xs"
proof (induction xs arbitrary: cs)
  case Nil
  then show ?case by simp
next
  case (Cons x xs)
  obtain candidate col where x: "x = (candidate, col)" by (cases x)
  from Cons.prems x obtain c cs' where c: "count_column n col = Inr c"
    and cs': "count_all n xs = Inr cs'" and e: "cs = c # cs'"
    by (auto split: sum.splits)
  show ?case using Cons.IH[OF cs'] count_column_Inr[OF c] e x by simp
qed

section \<open>The order of the joint sort\<close>

lemma lt_slot_True: "lt_slot x y = Inr True \<longleftrightarrow> (\<exists>a b. x = Some a \<and> y = Some b \<and> a < b)"
  by (cases x; cases y) auto

lemma lt_slot_False: "lt_slot x y = Inr False \<longleftrightarrow> (\<exists>a b. x = Some a \<and> y = Some b \<and> \<not> a < b)"
  by (cases x; cases y) auto

lemma lt_column_refl: "lt_column v v = Inr False"
  by (induction v) auto

lemma lt_column_trans:
  "lt_column a b = Inr True \<Longrightarrow> lt_column b c = Inr True \<Longrightarrow> lt_column a c = Inr True"
proof (induction a b arbitrary: c rule: lt_column.induct)
  case 1
  then show ?case by simp
next
  case (2 y ys)
  then show ?case by (cases c) (auto split: if_splits)
next
  case (3 x xs)
  then show ?case by simp
next
  case (4 x xs y ys)
  show ?case
  proof (cases c)
    case Nil
    then show ?thesis using 4 by simp
  next
    case (Cons z zs)
    then show ?thesis using 4 by (auto simp: lt_slot_True split: if_splits)
  qed
qed

lemma lt_column_asym: "lt_column a b = Inr True \<Longrightarrow> lt_column b a = Inr False"
  by (induction a b rule: lt_column.induct) (auto simp: lt_slot_True split: if_splits)

lemma lt_column_total: "lt_column a b = Inr False \<Longrightarrow> a = b \<or> lt_column b a = Inr True"
  by (induction a b rule: lt_column.induct) (auto simp: lt_slot_False split: if_splits)

lemma lt_column_neq: "lt_column a b = Inr True \<Longrightarrow> a \<noteq> b"
  using lt_column_refl by fastforce

lemma lt_entry_refl: "lt_entry a a = Inr False"
  by (cases a) simp

lemma lt_entry_trans:
  assumes "lt_entry a b = Inr True" "lt_entry b c = Inr True"
  shows "lt_entry a c = Inr True"
proof -
  obtain c1 v1 n1 where a: "a = (c1, v1, n1)" by (cases a)
  obtain c2 v2 n2 where b: "b = (c2, v2, n2)" by (cases b)
  obtain c3 v3 n3 where c: "c = (c3, v3, n3)" by (cases c)
  show ?thesis
    using assms lt_column_trans[of v1 v2 v3] lt_column_neq[of v1 v3] lt_column_neq[of v1 v2]
      lt_column_neq[of v2 v3]
    unfolding a b c
    by (auto split: if_splits)
qed

lemma lt_entry_asym: "lt_entry a b = Inr True \<Longrightarrow> lt_entry b a = Inr False"
proof -
  obtain c1 v1 n1 where a: "a = (c1, v1, n1)" by (cases a)
  obtain c2 v2 n2 where b: "b = (c2, v2, n2)" by (cases b)
  show "lt_entry a b = Inr True \<Longrightarrow> lt_entry b a = Inr False"
    using lt_column_asym[of v1 v2] unfolding a b by (auto split: if_splits)
qed

lemma lt_entry_total: "lt_entry a b = Inr False \<Longrightarrow> a = b \<or> lt_entry b a = Inr True"
proof -
  obtain c1 v1 n1 where a: "a = (c1, v1, n1)" by (cases a)
  obtain c2 v2 n2 where b: "b = (c2, v2, n2)" by (cases b)
  show "lt_entry a b = Inr False \<Longrightarrow> a = b \<or> lt_entry b a = Inr True"
    using lt_column_total[of v1 v2] unfolding a b by (auto split: if_splits)
qed

lemma entry_le_trans: "entry_le a b \<Longrightarrow> entry_le b c \<Longrightarrow> entry_le a c"
  unfolding entry_le_def using lt_entry_trans by blast

lemma entry_le_comparable: "entry_le a b \<Longrightarrow> (\<exists>r. lt_entry a b = Inr r) \<and> (\<exists>r. lt_entry b a = Inr r)"
  unfolding entry_le_def using lt_entry_refl lt_entry_asym by blast

lemma insort_py_Inr:
  assumes "insort_py lt_entry x ys = Inr zs" "sorted_wrt entry_le ys"
  shows "mset zs = add_mset x (mset ys) \<and> sorted_wrt entry_le zs"
  using assms
proof (induction ys arbitrary: zs)
  case Nil
  then show ?case by auto
next
  case (Cons y ys)
  show ?case
  proof (cases "lt_entry y x")
    case (Inl e)
    then show ?thesis using Cons.prems by simp
  next
    case (Inr r)
    show ?thesis
    proof (cases r)
      case True
      then obtain zs' where z: "insort_py lt_entry x ys = Inr zs'" "zs = y # zs'"
        using Cons.prems Inr by (auto split: sum.splits)
      have s: "sorted_wrt entry_le ys" and yle: "\<forall>z \<in> set ys. entry_le y z"
        using Cons.prems(2) by auto
      from Cons.IH[OF z(1) s] have ih: "mset zs' = add_mset x (mset ys)" "sorted_wrt entry_le zs'"
        by auto
      have "set zs' = insert x (set ys)" using ih(1) by (metis set_mset_add_mset_insert set_mset_mset)
      moreover have "entry_le y x" using Inr True by (simp add: entry_le_def)
      ultimately show ?thesis using ih yle z(2) by auto
    next
      case False
      then have z: "zs = x # y # ys" using Cons.prems Inr by simp
      have "entry_le x y" using lt_entry_total[of y x] Inr False by (auto simp: entry_le_def)
      then have "\<forall>z \<in> set (y # ys). entry_le x z"
        using Cons.prems(2) entry_le_trans by auto
      then show ?thesis using z Cons.prems(2) by auto
    qed
  qed
qed

lemma sorted_py_Inr:
  "sorted_py lt_entry xs = Inr ys \<Longrightarrow> mset ys = mset xs \<and> sorted_wrt entry_le ys"
proof (induction xs arbitrary: ys)
  case Nil
  then show ?case by simp
next
  case (Cons x xs)
  then obtain ys' where y: "sorted_py lt_entry xs = Inr ys'" "insort_py lt_entry x ys' = Inr ys"
    by (auto split: sum.splits)
  from Cons.IH[OF y(1)] insort_py_Inr[OF y(2)] show ?case by auto
qed

lemma lt_column_error: "lt_column a b = Inl e \<Longrightarrow> e = TypeError"
proof (induction a b rule: lt_column.induct)
  case (4 x xs y ys)
  then show ?case by (cases x; cases y) (auto split: if_splits)
qed auto

lemma lt_entry_error: "lt_entry a b = Inl e \<Longrightarrow> e = TypeError"
proof -
  obtain c1 v1 n1 where a: "a = (c1, v1, n1)" by (cases a)
  obtain c2 v2 n2 where b: "b = (c2, v2, n2)" by (cases b)
  show "lt_entry a b = Inl e \<Longrightarrow> e = TypeError"
    using lt_column_error[of v1 v2 e] unfolding a b by (auto split: if_splits)
qed

lemma lt_entry_defined: "lt_entry a b \<noteq> Inl TypeError \<longleftrightarrow> (\<exists>r. lt_entry a b = Inr r)"
  using lt_entry_error[of a b] by (cases "lt_entry a b") auto

lemma insort_py_total:
  assumes "\<forall>y \<in> set ys. \<exists>r. lt_entry y x = Inr r"
  shows "\<exists>zs. insort_py lt_entry x ys = Inr zs"
  using assms by (induction ys) (auto split: sum.splits bool.splits)

lemma sorted_wrt_comparable:
  assumes "sorted_wrt entry_le ys" "a \<in> set ys" "b \<in> set ys"
  shows "\<exists>r. lt_entry a b = Inr r"
proof -
  obtain i j where i: "i < length ys" "ys ! i = a" and j: "j < length ys" "ys ! j = b"
    using assms(2,3) by (meson in_set_conv_nth)
  consider "i < j" | "i = j" | "j < i" by linarith
  then show ?thesis
  proof cases
    case 1
    then have "entry_le a b" using assms(1) i j by (auto simp: sorted_wrt_iff_nth_less)
    then show ?thesis using entry_le_comparable by blast
  next
    case 2
    then show ?thesis using i j lt_entry_refl by auto
  next
    case 3
    then have "entry_le b a" using assms(1) i j by (auto simp: sorted_wrt_iff_nth_less)
    then show ?thesis using entry_le_comparable by blast
  qed
qed

lemma sorted_py_total:
  "comparable xs \<Longrightarrow> \<exists>ys. sorted_py lt_entry xs = Inr ys"
proof (induction xs)
  case Nil
  then show ?case by simp
next
  case (Cons x xs)
  have c: "\<forall>a \<in> set (x # xs). \<forall>b \<in> set (x # xs). \<exists>r. lt_entry a b = Inr r"
    using Cons.prems by (simp only: comparable_def list_all_iff lt_entry_defined)
  then have "comparable xs"
    by (simp add: comparable_def list_all_iff lt_entry_defined)
  then obtain ys' where y: "sorted_py lt_entry xs = Inr ys'" using Cons.IH by blast
  then have "set ys' = set xs" using sorted_py_Inr[OF y] by (metis set_mset_mset)
  then have "\<forall>y \<in> set ys'. \<exists>r. lt_entry y x = Inr r" using c by simp
  then obtain zs where "insort_py lt_entry x ys' = Inr zs" using insort_py_total by blast
  then show ?case using y by simp
qed

lemma sorted_py_succeeds_iff:
  "(\<exists>ys. sorted_py lt_entry xs = Inr ys) \<longleftrightarrow> comparable xs"
proof
  assume "\<exists>ys. sorted_py lt_entry xs = Inr ys"
  then obtain ys where y: "sorted_py lt_entry xs = Inr ys" by blast
  then have s: "sorted_wrt entry_le ys" and e: "set ys = set xs"
    using sorted_py_Inr[OF y] by (auto dest: mset_eq_setD)
  show "comparable xs"
    unfolding comparable_def list_all_iff lt_entry_defined
    using sorted_wrt_comparable[OF s] e by blast
next
  assume "comparable xs"
  then show "\<exists>ys. sorted_py lt_entry xs = Inr ys" by (rule sorted_py_total)
qed

section \<open>What the constructor builds\<close>

lemma new_VoteTable_Inr:
  assumes "new_VoteTable vs ns = Inr t"
  obtains cs es where
    "count_all (length ns) (zip ns (p3zip (map get_rank_order vs))) = Inr cs"
    "sorted_py lt_entry (zip cs (zip (p3zip (map get_rank_order vs)) ns)) = Inr es"
    "es \<noteq> []"
    "t = \<lparr>votes = p3zip (map (\<lambda>(c, v, n). v) es), names = map (\<lambda>(c, v, n). n) es,
          counts = map (\<lambda>(c, v, n). c) es, N_votes = length vs, N_candidates = length ns\<rparr>"
  using assms
  by (auto simp: new_VoteTable_def maintain_def update_counts_def reduce_ranks_def
        votes_by_candidate_def split: sum.splits list.splits)

lemma zip3_unzip:
  "zip (map (\<lambda>(c, v, n). c) es) (zip (map (\<lambda>(c, v, n). v) es) (map (\<lambda>(c, v, n). n) es)) = es"
  by (induction es) auto

lemma new_VoteTable_aligned:
  assumes t: "new_VoteTable vs ns = Inr t" and al: "aligned vs ns"
  shows "vs \<noteq> []" and "ns \<noteq> []"
    and "N_votes t = length vs" and "N_candidates t = length ns"
    and "length (votes t) = length vs" and "length (names t) = length ns"
    and "aligned (votes t) (names t)"
    and "counts t = map (histogram (length ns)) (p3zip (votes t))"
    and "sorted_wrt entry_le (entries t)"
    and "mset (entries t) =
         mset (map (\<lambda>i. (histogram (length ns) (p3zip (map get_rank_order vs) ! i),
                          p3zip (map get_rank_order vs) ! i, ns ! i)) [0..<length ns])"
    and "length (p3zip (votes t)) = length ns"
proof -
  let ?n = "length ns" and ?m = "length vs"
  let ?vs = "map get_rank_order vs"
  let ?cols = "p3zip ?vs"
  from new_VoteTable_Inr[OF t] obtain cs es where
    cs: "count_all ?n (zip ns ?cols) = Inr cs" and
    es: "sorted_py lt_entry (zip cs (zip ?cols ns)) = Inr es" and
    ne: "es \<noteq> []" and
    tt: "t = \<lparr>votes = p3zip (map (\<lambda>(c, v, n). v) es), names = map (\<lambda>(c, v, n). n) es,
          counts = map (\<lambda>(c, v, n). c) es, N_votes = length vs, N_candidates = length ns\<rparr>"
    by blast
  let ?input = "zip cs (zip ?cols ns)"
  have ms: "mset es = mset ?input" and srt: "sorted_wrt entry_le es"
    using sorted_py_Inr[OF es] by auto
  have "?input \<noteq> []" using ms ne by auto
  then have cne: "?cols \<noteq> []" and nne: "ns \<noteq> []" by auto
  then have vne: "?vs \<noteq> []" by (auto simp: p3zip_def)
  show "vs \<noteq> []" using vne by simp
  show "ns \<noteq> []" by (rule nne)
  have rect: "\<forall>row \<in> set ?vs. length row = ?n"
    using al by (auto simp: aligned_def list_all_iff get_rank_order_length)
  have lcols: "length ?cols = ?n" by (rule p3zip_rect_length[OF vne rect])
  have rcols: "\<forall>col \<in> set ?cols. length col = ?m"
    using p3zip_rect_rows[OF vne rect] by simp
  have cs_eq: "cs = map (\<lambda>(candidate, col). histogram ?n col) (zip ns ?cols)"
    by (rule count_all_Inr[OF cs])
  have lcs: "length cs = ?n" using cs_eq lcols by simp
  have input_eq: "?input = map (\<lambda>i. (histogram ?n (?cols ! i), ?cols ! i, ns ! i)) [0..<?n]"
    using lcs lcols by (intro nth_equalityI) (auto simp: cs_eq)
  have les: "length es = ?n" using ms lcs lcols by (metis length_zip min.idem size_mset)
  let ?ct = "map (\<lambda>(c, v, n). v) es"
  have ctne: "?ct \<noteq> []" using ne by simp
  have "set ?ct \<subseteq> set ?cols"
  proof
    fix v assume "v \<in> set ?ct"
    then obtain c n where "(c, v, n) \<in> set es" by auto
    then have "(c, v, n) \<in> set ?input" using ms by (metis set_mset_mset)
    then have "(v, n) \<in> set (zip ?cols ns)" by (rule set_zip_rightD)
    then show "v \<in> set ?cols" by (rule set_zip_leftD)
  qed
  then have rct: "\<forall>col \<in> set ?ct. length col = ?m" using rcols by auto
  have mpos: "0 < ?m" using vne by simp
  have lv: "length (p3zip ?ct) = ?m" by (rule p3zip_rect_length[OF ctne rct])
  have rv: "\<forall>b \<in> set (p3zip ?ct). length b = length ?ct" by (rule p3zip_rect_rows[OF ctne rct])
  have inv: "p3zip (p3zip ?ct) = ?ct" by (rule p3zip_involution[OF ctne rct mpos])
  show "N_votes t = length vs" "N_candidates t = length ns" by (simp_all add: tt)
  show "length (votes t) = length vs" using lv by (simp add: tt)
  show "length (names t) = length ns" using les by (simp add: tt)
  show "aligned (votes t) (names t)" using rv by (simp add: tt aligned_def list_all_iff)
  have ent: "entries t = es" by (simp add: entries_def tt inv zip3_unzip)
  show "sorted_wrt entry_le (entries t)" using srt ent by simp
  show "mset (entries t) =
         mset (map (\<lambda>i. (histogram ?n (?cols ! i), ?cols ! i, ns ! i)) [0..<?n])"
    using ms ent input_eq by simp
  have "\<forall>e \<in> set es. fst e = histogram ?n (fst (snd e))"
  proof
    fix e assume "e \<in> set es"
    then have "e \<in> set ?input" using ms by (metis set_mset_mset)
    then show "fst e = histogram ?n (fst (snd e))" unfolding input_eq by auto
  qed
  then have "map (\<lambda>(c, v, n). c) es = map (histogram ?n) ?ct"
    by (auto simp: case_prod_beta)
  then show "counts t = map (histogram ?n) (p3zip (votes t))" by (simp add: tt inv)
  show "length (p3zip (votes t)) = length ns" using les by (simp add: tt inv)
qed

lemma new_VoteTable_wf:
  assumes "new_VoteTable vs ns = Inr t" "aligned vs ns"
  shows "wf_table t"
  using new_VoteTable_aligned[OF assms]
  by (auto simp: wf_table_def)

lemma wf_table_columns:
  assumes "wf_table t"
  shows "length (p3zip (votes t)) = length (names t)"
    and "\<forall>col \<in> set (p3zip (votes t)). length col = length (votes t)"
    and "i < length (names t) \<Longrightarrow> p3zip (votes t) ! i = map (\<lambda>b. b ! i) (votes t)"
    and "length (counts t) = length (names t)"
proof -
  have ne: "votes t \<noteq> []" and rect: "\<forall>row \<in> set (votes t). length row = length (names t)"
    using assms by (auto simp: wf_table_def aligned_def list_all_iff)
  show l: "length (p3zip (votes t)) = length (names t)" by (rule p3zip_rect_length[OF ne rect])
  show "\<forall>col \<in> set (p3zip (votes t)). length col = length (votes t)"
    by (rule p3zip_rect_rows[OF ne rect])
  show "i < length (names t) \<Longrightarrow> p3zip (votes t) ! i = map (\<lambda>b. b ! i) (votes t)"
    by (rule p3zip_rect_nth[OF ne rect])
  show "length (counts t) = length (names t)" using assms l by (simp add: wf_table_def)
qed

lemma zip3_third:
  assumes "length as = length cs" "length bs = length cs"
  shows "map (\<lambda>e. snd (snd e)) (zip as (zip bs cs)) = cs"
proof -
  have "map (\<lambda>e. snd (snd e)) (zip as (zip bs cs)) = map snd (map snd (zip as (zip bs cs)))"
    by simp
  also have "\<dots> = map snd (zip bs cs)" using assms by (simp only: map_snd_zip length_zip min.idem)
  also have "\<dots> = cs" using assms by (simp only: map_snd_zip)
  finally show ?thesis .
qed

lemma new_VoteTable_names:
  assumes "new_VoteTable vs ns = Inr t" "aligned vs ns"
  shows "mset (names t) = mset ns"
proof -
  note f = new_VoteTable_aligned[OF assms]
  have wf: "wf_table t" by (rule new_VoteTable_wf[OF assms])
  have "names t = map (\<lambda>e. snd (snd e)) (entries t)"
    using wf_table_columns(1,4)[OF wf]
    by (simp add: entries_def zip3_third)
  then have "mset (names t) = image_mset (\<lambda>e. snd (snd e)) (mset (entries t))"
    by (metis mset_map)
  also have "\<dots> = mset (map (\<lambda>i. ns ! i) [0..<length ns])"
    unfolding f(10) by (simp add: comp_def flip: mset_map)
  finally show ?thesis by (simp add: map_nth)
qed

lemma hd_histogram: "0 < n \<Longrightarrow> hd (histogram n col) = count_list col (Some 1)"
  by (simp add: histogram_def upt_conv_Cons del: upt_Suc)

lemma count_list_map_filter: "count_list (map f xs) y = length (filter (\<lambda>x. f x = y) xs)"
  by (induction xs) auto

lemma wf_table_last_count:
  assumes "wf_table t"
  shows "counts t \<noteq> []" and "last (counts t) \<noteq> []"
    and "hd (last (counts t)) = length (filter (\<lambda>b. last b = Some 1) (votes t))"
proof -
  let ?n = "length (names t)"
  have n: "0 < ?n" using assms by (simp add: wf_table_def)
  note c = wf_table_columns[OF assms]
  show cne: "counts t \<noteq> []" using c(4) n by auto
  have "last (counts t) = counts t ! (?n - 1)" using cne c(4) by (simp add: last_conv_nth)
  also have "\<dots> = histogram ?n (p3zip (votes t) ! (?n - 1))"
    using assms c(1) n by (simp add: wf_table_def)
  also have "p3zip (votes t) ! (?n - 1) = map (\<lambda>b. b ! (?n - 1)) (votes t)"
    using c(3)[of "?n - 1"] n by simp
  also have "\<dots> = map last (votes t)"
  proof (rule map_cong)
    fix b assume "b \<in> set (votes t)"
    then have "length b = ?n" using assms by (auto simp: wf_table_def aligned_def list_all_iff)
    then show "b ! (?n - 1) = last b" using n by (metis last_conv_nth length_greater_0_conv)
  qed simp
  finally have e: "last (counts t) = histogram ?n (map last (votes t))" .
  show "last (counts t) \<noteq> []" using e n by (simp add: histogram_def)
  show "hd (last (counts t)) = length (filter (\<lambda>b. last b = Some 1) (votes t))"
    using e n by (simp add: hd_histogram count_list_map_filter)
qed

section \<open>Majority and ties\<close>
lemma compute_winner_wf:
  assumes "wf_table t"
  shows "compute_winner t =
           Inr (if 2 * length (filter (\<lambda>b. last b = Some 1) (votes t)) > length (votes t)
                then Some (last (names t)) else None)"
proof -
  note l = wf_table_last_count[OF assms]
  have nv: "N_votes t = length (votes t)" and nn: "names t \<noteq> []"
    using assms by (simp_all add: wf_table_def)
  let ?c = "length (filter (\<lambda>b. last b = Some 1) (votes t))"
  have "(real ?c > real (length (votes t)) / 2) = (2 * ?c > length (votes t))" by auto
  then show ?thesis using l nv nn by (simp add: compute_winner_def)
qed

lemma check_tied_wf:
  assumes "wf_table t" and "2 \<le> N_candidates t"
  shows "check_tied t =
           Inr (counts t ! (N_candidates t - 1) = counts t ! (N_candidates t - 2) \<and>
                (\<exists>c \<in> set (counts t ! (N_candidates t - 1)). c \<noteq> 0))"
proof -
  have l: "length (counts t) = N_candidates t"
    using wf_table_columns(4)[OF assms(1)] assms(1) by (simp add: wf_table_def)
  then have "last (counts t) = counts t ! (N_candidates t - 1)"
    using assms(2) by (metis last_conv_nth list.size(3) not_numeral_le_zero)
  moreover have "(sum_list xs > 0) = (\<exists>c \<in> set xs. c \<noteq> 0)" for xs :: "nat list"
    by (induction xs) auto
  ultimately show ?thesis using l assms(2) by (simp add: check_tied_def Let_def)
qed

text \<open>
  Claim C1. Let \<open>t\<close> be the table built from ballots \<open>vs\<close> (each with one slot per name).
  Then \<open>compute_winner t\<close> returns the name of the last candidate of the sorted order
  exactly when twice the number of ballots that rank this candidate first exceeds the
  number of all ballots \<open>length vs\<close>, abstaining ones included, and returns \<open>None\<close>
  otherwise, so also at exactly half.
\<close>

theorem compute_winner_majority:
  assumes "aligned vs ns" and "new_VoteTable vs ns = Inr t"
  shows "compute_winner t =
           Inr (if 2 * length (filter (\<lambda>b. last b = Some 1) (votes t)) > length vs
                then Some (last (names t)) else None)"
  using compute_winner_wf [OF new_VoteTable_wf [OF assms(2,1)]]
    new_VoteTable_aligned(5) [OF assms(2,1)]
  by simp

theorem compute_winner_majority_witness:
  "aligned [[Some 1, Some 2], [Some 1, Some 2], [Some 2, Some 1], [Some 2, Some 1]] [''A'', ''B''] \<and>
   new_VoteTable [[Some 1, Some 2], [Some 1, Some 2], [Some 2, Some 1], [Some 2, Some 1]] [''A'', ''B'']
     = Inr \<lparr>votes = [[Some 1, Some 2], [Some 1, Some 2], [Some 2, Some 1], [Some 2, Some 1]],
            names = [''A'', ''B''], counts = [[2, 2], [2, 2]], N_votes = 4, N_candidates = 2\<rparr> \<and>
   compute_winner \<lparr>votes = [[Some 1, Some 2], [Some 1, Some 2], [Some 2, Some 1], [Some 2, Some 1]],
            names = [''A'', ''B''], counts = [[2, 2], [2, 2]], N_votes = 4, N_candidates = 2\<rparr>
     = Inr None \<and>
   aligned [[Some 1, Some 2], [Some 1, Some 2], [Some 1, None]] [''A'', ''B''] \<and>
   new_VoteTable [[Some 1, Some 2], [Some 1, Some 2], [Some 1, None]] [''A'', ''B'']
     = Inr \<lparr>votes = [[Some 2, Some 1], [Some 2, Some 1], [None, Some 1]],
            names = [''B'', ''A''], counts = [[0, 2], [3, 0]], N_votes = 3, N_candidates = 2\<rparr> \<and>
   compute_winner \<lparr>votes = [[Some 2, Some 1], [Some 2, Some 1], [None, Some 1]],
            names = [''B'', ''A''], counts = [[0, 2], [3, 0]], N_votes = 3, N_candidates = 2\<rparr>
     = Inr (Some ''A'')"
proof -
  have a1: "aligned [[Some 1, Some 2], [Some 1, Some 2], [Some 2, Some 1], [Some 2, Some 1]] [''A'', ''B'']"
    by (simp add: aligned_def)
  have t1: "new_VoteTable [[Some 1, Some 2], [Some 1, Some 2], [Some 2, Some 1], [Some 2, Some 1]] [''A'', ''B'']
     = Inr \<lparr>votes = [[Some 1, Some 2], [Some 1, Some 2], [Some 2, Some 1], [Some 2, Some 1]],
            names = [''A'', ''B''], counts = [[2, 2], [2, 2]], N_votes = 4, N_candidates = 2\<rparr>"
    by code_simp
  have a2: "aligned [[Some 1, Some 2], [Some 1, Some 2], [Some 1, None]] [''A'', ''B'']"
    by (simp add: aligned_def)
  have t2: "new_VoteTable [[Some 1, Some 2], [Some 1, Some 2], [Some 1, None]] [''A'', ''B'']
     = Inr \<lparr>votes = [[Some 2, Some 1], [Some 2, Some 1], [None, Some 1]],
            names = [''B'', ''A''], counts = [[0, 2], [3, 0]], N_votes = 3, N_candidates = 2\<rparr>"
    by code_simp
  show ?thesis
    using a1 t1 a2 t2 compute_winner_majority [OF a1 t1] compute_winner_majority [OF a2 t2]
    by simp
qed

text \<open>
  Claim C5. For every table built from aligned ballots that has at least two candidates,
  \<open>check_tied\<close> returns true exactly when the count vectors of the last two candidates of
  the sorted order are equal and this vector has a nonzero entry.
\<close>

theorem check_tied_strongest_two:
  assumes "aligned vs ns" and "new_VoteTable vs ns = Inr t" and "2 \<le> N_candidates t"
  shows "check_tied t =
           Inr (counts t ! (N_candidates t - 1) = counts t ! (N_candidates t - 2) \<and>
                (\<exists>c \<in> set (counts t ! (N_candidates t - 1)). c \<noteq> 0))"
  by (rule check_tied_wf [OF new_VoteTable_wf [OF assms(2,1)] assms(3)])

theorem check_tied_strongest_two_witness:
  "aligned [[Some 1, Some 2], [Some 1, Some 2], [Some 2, Some 1], [Some 2, Some 1]] [''A'', ''B''] \<and>
   new_VoteTable [[Some 1, Some 2], [Some 1, Some 2], [Some 2, Some 1], [Some 2, Some 1]] [''A'', ''B'']
     = Inr \<lparr>votes = [[Some 1, Some 2], [Some 1, Some 2], [Some 2, Some 1], [Some 2, Some 1]],
            names = [''A'', ''B''], counts = [[2, 2], [2, 2]], N_votes = 4, N_candidates = 2\<rparr> \<and>
   check_tied \<lparr>votes = [[Some 1, Some 2], [Some 1, Some 2], [Some 2, Some 1], [Some 2, Some 1]],
            names = [''A'', ''B''], counts = [[2, 2], [2, 2]], N_votes = 4, N_candidates = 2\<rparr>
     = Inr True"
proof -
  have a1: "aligned [[Some 1, Some 2], [Some 1, Some 2], [Some 2, Some 1], [Some 2, Some 1]] [''A'', ''B'']"
    by (simp add: aligned_def)
  have t1: "new_VoteTable [[Some 1, Some 2], [Some 1, Some 2], [Some 2, Some 1], [Some 2, Some 1]] [''A'', ''B'']
     = Inr \<lparr>votes = [[Some 1, Some 2], [Some 1, Some 2], [Some 2, Some 1], [Some 2, Some 1]],
            names = [''A'', ''B''], counts = [[2, 2], [2, 2]], N_votes = 4, N_candidates = 2\<rparr>"
    by code_simp
  show ?thesis
    using a1 t1 check_tied_strongest_two [OF a1 t1] by simp
qed

section \<open>The sorted order of a table\<close>
lemma entry_le_iff:
  "entry_le (c1, v1, n1) (c2, v2, n2) \<longleftrightarrow>
     c1 < c2 \<or> (c1 = c2 \<and> (lt_column v1 v2 = Inr True \<or> (v1 = v2 \<and> n1 \<le> n2)))"
  using lt_column_neq[of v1 v2] by (auto simp: entry_le_def)

lemma sorted_wrt_entry_le_counts:
  "sorted_wrt entry_le es \<Longrightarrow> sorted (map fst es)"
proof (induction es)
  case Nil
  then show ?case by simp
next
  case (Cons e es)
  have "fst e \<le> fst x" if "x \<in> set es" for x
  proof -
    have "entry_le e x" using Cons.prems that by simp
    then show ?thesis by (cases e; cases x) (auto simp: entry_le_iff)
  qed
  then show ?case using Cons by auto
qed

text \<open>
  Claim C3, as amended. In every table built from aligned ballots, the triples
  (count vector, ballot column, name) stand in ascending order, where a triple precedes
  another when its count vector is lexicographically smaller, or the count vectors are
  equal and its ballot column is smaller at the first ballot where the two columns
  differ, or count vectors and columns are equal and its name is not greater. So the
  count vectors ascend, the three sequences have one entry per candidate, and they are
  ordered jointly: the triples of the table are a rearrangement of the triples of the
  input candidates (count vector of the normalised column, normalised column, name).
  This holds of every table, since \<open>copy\<close> and \<open>with_candidate_eliminated\<close> build theirs
  with the same constructor.
\<close>

theorem update_counts_order:
  assumes "aligned vs ns" and "new_VoteTable vs ns = Inr t"
  shows "sorted_wrt (\<lambda>(c1, v1, n1) (c2, v2, n2).
            c1 < c2 \<or> (c1 = c2 \<and> (lt_column v1 v2 = Inr True \<or> (v1 = v2 \<and> n1 \<le> n2))))
           (zip (counts t) (zip (p3zip (votes t)) (names t))) \<and>
         sorted (counts t) \<and>
         length (counts t) = length ns \<and> length (p3zip (votes t)) = length ns \<and>
         length (names t) = length ns \<and>
         mset (zip (counts t) (zip (p3zip (votes t)) (names t))) =
         mset (map (\<lambda>i. (histogram (length ns) (p3zip (map get_rank_order vs) ! i),
                          p3zip (map get_rank_order vs) ! i, ns ! i)) [0..<length ns])"
proof -
  note f = new_VoteTable_aligned[OF assms(2,1)]
  have wf: "wf_table t" by (rule new_VoteTable_wf[OF assms(2,1)])
  have rel: "entry_le = (\<lambda>(c1, v1, n1) (c2, v2, n2).
            c1 < c2 \<or> (c1 = c2 \<and> (lt_column v1 v2 = Inr True \<or> (v1 = v2 \<and> n1 \<le> n2))))"
    by (intro ext) (auto simp: entry_le_iff)
  have s: "sorted_wrt entry_le (entries t)" by (rule f(9))
  have lc: "length (counts t) = length ns" using wf_table_columns(4)[OF wf] f(6) by simp
  have "map fst (entries t) = counts t"
    using lc f(6,11) by (simp add: entries_def)
  then have "sorted (counts t)" using sorted_wrt_entry_le_counts[OF s] by simp
  then show ?thesis using s f(6,10,11) lc unfolding rel entries_def by simp
qed

theorem update_counts_order_witness:
  "aligned [[Some 2, Some 1], [Some 1, Some 2]] [''A'', ''B''] \<and>
   new_VoteTable [[Some 2, Some 1], [Some 1, Some 2]] [''A'', ''B''] = Inr \<lparr>votes = [[Some 1, Some 2], [Some 2, Some 1]], names = [''B'', ''A''],
            counts = [[1, 1], [1, 1]], N_votes = 2, N_candidates = 2\<rparr> \<and>
   sorted (counts \<lparr>votes = [[Some 1, Some 2], [Some 2, Some 1]], names = [''B'', ''A''],
            counts = [[1, 1], [1, 1]], N_votes = 2, N_candidates = 2\<rparr>) \<and>
   length (p3zip (votes \<lparr>votes = [[Some 1, Some 2], [Some 2, Some 1]], names = [''B'', ''A''],
            counts = [[1, 1], [1, 1]], N_votes = 2, N_candidates = 2\<rparr>)) = 2"
proof -
  have a: "aligned [[Some 2, Some 1], [Some 1, Some 2]] [''A'', ''B'']"
    by (simp add: aligned_def)
  have t: "new_VoteTable [[Some 2, Some 1], [Some 1, Some 2]] [''A'', ''B''] = Inr \<lparr>votes = [[Some 1, Some 2], [Some 2, Some 1]], names = [''B'', ''A''],
            counts = [[1, 1], [1, 1]], N_votes = 2, N_candidates = 2\<rparr>"
    by code_simp
  show ?thesis using a t update_counts_order [OF a t] by simp
qed

text \<open>
  Claim C3 as stated fails: candidates \<open>A\<close> and \<open>B\<close> have the same count vector, and the
  table puts \<open>B\<close> first, because the sort compares the ballot columns before the names.
\<close>

theorem update_counts_order_counterexample:
  "new_VoteTable [[Some 2, Some 1], [Some 1, Some 2]] [''A'', ''B'']
     = Inr \<lparr>votes = [[Some 1, Some 2], [Some 2, Some 1]], names = [''B'', ''A''],
            counts = [[1, 1], [1, 1]], N_votes = 2, N_candidates = 2\<rparr> \<and>
   \<not> claimed_order \<lparr>votes = [[Some 1, Some 2], [Some 2, Some 1]], names = [''B'', ''A''],
            counts = [[1, 1], [1, 1]], N_votes = 2, N_candidates = 2\<rparr>"
proof -
  have "new_VoteTable [[Some 2, Some 1], [Some 1, Some 2]] [''A'', ''B'']
     = Inr \<lparr>votes = [[Some 1, Some 2], [Some 2, Some 1]], names = [''B'', ''A''],
            counts = [[1, 1], [1, 1]], N_votes = 2, N_candidates = 2\<rparr>"
    by code_simp
  moreover have "\<not> claimed_order \<lparr>votes = [[Some 1, Some 2], [Some 2, Some 1]], names = [''B'', ''A''],
            counts = [[1, 1], [1, 1]], N_votes = 2, N_candidates = 2\<rparr>"
    by (simp add: claimed_order_def)
  ultimately show ?thesis by simp
qed

section \<open>Exceptions of the joint sort\<close>

text \<open>
  Claim C9 at a failing input: two voters, each ranking one of two candidates first and
  abstaining on the other. The count vectors are equal, the columns differ in their
  first slot, and comparing \<open>None\<close> with \<open>1\<close> raises \<open>TypeError\<close>.
\<close>

theorem update_counts_raises:
  "new_VoteTable [[Some 1, None], [None, Some 1]] [''A'', ''B''] = Inl TypeError"
  by code_simp

text \<open>
  The same comparison raises in a rebuild. The table below is built without an
  exception from two ballots over three candidates; its first round finds \<open>C\<close> after two
  eliminations; eliminating \<open>C\<close> from the snapshot leaves \<open>A\<close> and \<open>B\<close> with equal count
  vectors and the columns \<open>[None, 1]\<close> and \<open>[1, None]\<close>, and the run ends with
  \<open>TypeError\<close> (the prompt is never asked).
\<close>

lemma instant_runoff_raises:
  "new_VoteTable [[Some 1, None, Some 2], [None, Some 2, Some 1]] [''A'', ''B'', ''C'']
     = Inr \<lparr>votes = [[None, Some 1, Some 2], [Some 2, None, Some 1]],
            names = [''B'', ''A'', ''C''], counts = [[0, 1, 0], [1, 0, 0], [1, 1, 0]],
            N_votes = 2, N_candidates = 3\<rparr> \<and>
   runoff_round (\<lambda>t. Inl AttributeError)
       \<lparr>votes = [[None, Some 1, Some 2], [Some 2, None, Some 1]],
            names = [''B'', ''A'', ''C''], counts = [[0, 1, 0], [1, 0, 0], [1, 1, 0]],
            N_votes = 2, N_candidates = 3\<rparr>
     = Some (Inr (Winner ''C'',
                  \<lparr>votes = [[Some 1], [Some 1]], names = [''C''], counts = [[2]],
                   N_votes = 2, N_candidates = 1\<rparr>)) \<and>
   with_candidate_eliminated
       \<lparr>votes = [[None, Some 1, Some 2], [Some 2, None, Some 1]],
            names = [''B'', ''A'', ''C''], counts = [[0, 1, 0], [1, 0, 0], [1, 1, 0]],
            N_votes = 2, N_candidates = 3\<rparr> 2
     = Inl TypeError \<and>
   instant_runoff (\<lambda>t. Inl AttributeError)
       \<lparr>votes = [[None, Some 1, Some 2], [Some 2, None, Some 1]],
            names = [''B'', ''A'', ''C''], counts = [[0, 1, 0], [1, 0, 0], [1, 1, 0]],
            N_votes = 2, N_candidates = 3\<rparr>
     = Some (Inl TypeError)"
  by code_simp

section \<open>Elimination, copies and the rounds\<close>
lemma p3zip_Nil: "p3zip [] = []"
  by (simp add: p3zip_def)

lemma eliminated_input_aligned:
  assumes "wf_table t"
  shows "aligned (p3zip (take i (p3zip (votes t)) @ drop (i + 1) (p3zip (votes t))))
           (take i (names t) @ drop (i + 1) (names t))"
proof -
  let ?cols = "p3zip (votes t)"
  let ?new = "take i ?cols @ drop (i + 1) ?cols"
  note c = wf_table_columns[OF assms]
  show ?thesis
  proof (cases "?new = []")
    case True
    then have "p3zip ?new = []" by (simp only: p3zip_Nil)
    then show ?thesis by (simp add: aligned_def)
  next
    case False
    have rect: "\<forall>col \<in> set ?new. length col = length (votes t)"
      using c(2) by (auto dest: in_set_takeD in_set_dropD)
    have "\<forall>b \<in> set (p3zip ?new). length b = length ?new"
      by (rule p3zip_rect_rows[OF False rect])
    moreover have "length ?new = length (take i (names t) @ drop (i + 1) (names t))"
      using c(1) by simp
    ultimately show ?thesis by (simp add: aligned_def list_all_iff)
  qed
qed

lemma eliminated_wf:
  assumes "wf_table t" and "with_candidate_eliminated t i = Inr t'"
  shows "wf_table t'"
    and "mset (names t') = mset (take i (names t) @ drop (i + 1) (names t))"
    and "length (votes t') = length (votes t)"
proof -
  let ?cols = "p3zip (votes t)"
  let ?new = "take i ?cols @ drop (i + 1) ?cols"
  let ?nn = "take i (names t) @ drop (i + 1) (names t)"
  have e: "new_VoteTable (p3zip ?new) ?nn = Inr t'"
    using assms(2) by (simp add: with_candidate_eliminated_def votes_by_candidate_def Let_def)
  have a: "aligned (p3zip ?new) ?nn" by (rule eliminated_input_aligned[OF assms(1)])
  show "wf_table t'" by (rule new_VoteTable_wf[OF e a])
  show "mset (names t') = mset ?nn" by (rule new_VoteTable_names[OF e a])
  note c = wf_table_columns[OF assms(1)]
  have ne: "p3zip ?new \<noteq> []" using new_VoteTable_aligned(1)[OF e a] .
  have nne: "?new \<noteq> []"
  proof
    assume "?new = []"
    then have "p3zip ?new = []" by (simp only: p3zip_Nil)
    then show False using ne by simp
  qed
  have rect: "\<forall>col \<in> set ?new. length col = length (votes t)"
    using c(2) by (auto dest: in_set_takeD in_set_dropD)
  have "length (p3zip ?new) = length (votes t)" by (rule p3zip_rect_length[OF nne rect])
  then show "length (votes t') = length (votes t)"
    using new_VoteTable_aligned(5)[OF e a] by simp
qed

lemma eliminated_names_valid:
  assumes "wf_table t" and "with_candidate_eliminated t i = Inr t'" and "i < N_candidates t"
  shows "mset (names t') = mset (names t) - {#names t ! i#}"
    and "N_candidates t' = N_candidates t - 1"
    and "set (names t') \<subseteq> set (names t)"
proof -
  have n: "N_candidates t = length (names t)" using assms(1) by (simp add: wf_table_def)
  have "mset (names t) = mset (take i (names t) @ names t ! i # drop (i + 1) (names t))"
    using assms(3) n by (simp add: id_take_nth_drop[symmetric])
  then show m: "mset (names t') = mset (names t) - {#names t ! i#}"
    using eliminated_wf(2)[OF assms(1,2)] by simp
  have "wf_table t'" by (rule eliminated_wf(1)[OF assms(1,2)])
  then have "N_candidates t' = length (names t')" by (simp add: wf_table_def)
  also have "\<dots> = length (take i (names t) @ drop (i + 1) (names t))"
    using eliminated_wf(2)[OF assms(1,2)] by (metis size_mset)
  finally show "N_candidates t' = N_candidates t - 1" using assms(3) n by simp
  show "set (names t') \<subseteq> set (names t)"
    using m by (metis in_diffD mset_eq_setD set_mset_mset subsetI)
qed

lemma eliminated_names_subset:
  assumes "wf_table t" and "with_candidate_eliminated t i = Inr t'"
  shows "set (names t') \<subseteq> set (names t)"
proof -
  have "set (names t') = set (take i (names t) @ drop (i + 1) (names t))"
    using eliminated_wf(2)[OF assms] by (rule mset_eq_setD)
  then show ?thesis by (auto dest: in_set_takeD in_set_dropD)
qed

lemma copy_wf:
  assumes "wf_table t" and "copy t = Inr t'"
  shows "wf_table t'" and "mset (names t') = mset (names t)"
proof -
  have e: "new_VoteTable (votes t) (names t) = Inr t'" using assms(2) by (simp add: copy_def)
  have a: "aligned (votes t) (names t)" using assms(1) by (simp add: wf_table_def)
  show "wf_table t'" by (rule new_VoteTable_wf[OF e a])
  show "mset (names t') = mset (names t)" by (rule new_VoteTable_names[OF e a])
qed

lemma index_py_Inr: "index_py xs x = Inr i \<Longrightarrow> i < length xs \<and> xs ! i = x"
proof (induction xs arbitrary: i)
  case Nil
  then show ?case by simp
next
  case (Cons y ys)
  show ?case
  proof (cases "y = x")
    case True
    then show ?thesis using Cons.prems by simp
  next
    case False
    then obtain j where "index_py ys x = Inr j" "i = Suc j"
      using Cons.prems by (auto split: sum.splits)
    then show ?thesis using Cons.IH by simp
  qed
qed

lemma index_py_mem: "x \<in> set xs \<Longrightarrow> \<exists>i. index_py xs x = Inr i"
  by (induction xs) auto

lemma compute_winner_Some:
  "compute_winner t = Inr (Some w) \<Longrightarrow> w \<in> set (names t)"
  by (auto simp: compute_winner_def split: if_splits)

lemma round_body_break:
  assumes "round_body prompt t = Inr (Inl r)"
  shows "result_name r \<in> set (names t)"
proof (cases "compute_winner t")
  case (Inl e)
  then show ?thesis using assms by (simp add: round_body_def)
next
  case (Inr w)
  show ?thesis
  proof (cases w)
    case None
    then show ?thesis using assms Inr
      by (auto simp: round_body_def split: if_splits list.splits sum.splits)
  next
    case (Some x)
    then show ?thesis using assms Inr compute_winner_Some[of t x]
      by (auto simp: round_body_def)
  qed
qed

lemma round_body_continue:
  assumes "round_body prompt t = Inr (Inr t')"
  shows "compute_winner t = Inr None \<and> N_candidates t \<noteq> 1 \<and>
         (\<exists>i. choose_loser prompt t = Inr i \<and> with_candidate_eliminated t i = Inr t')"
  using assms
  by (auto simp: round_body_def split: sum.splits option.splits if_splits list.splits)

lemma runoff_round_result:
  assumes "runoff_round prompt t = Some y"
  shows "wf_table t \<longrightarrow>
           (\<forall>r reduced. y = Inr (r, reduced) \<longrightarrow>
              result_name r \<in> set (names t) \<and> wf_table reduced \<and>
              set (names reduced) \<subseteq> set (names t))"
  using assms
proof (induction prompt t y rule: runoff_round.raw_induct[rotated 1, consumes 1])
  case (1 runoff_round prompt t y)
  show ?case
  proof (cases "round_body prompt t")
    case (Inl e)
    then show ?thesis using 1(2) by auto
  next
    case (Inr s)
    show ?thesis
    proof (cases s)
      case (Inl r)
      then show ?thesis using 1(2) Inr round_body_break[of prompt t r] by auto
    next
      case (Inr t')
      with \<open>round_body prompt t = Inr s\<close> have rb: "round_body prompt t = Inr (Inr t')" by simp
      then have rec: "runoff_round prompt t' = Some y" using 1(2) by simp
      from round_body_continue[OF rb] obtain i where
        el: "with_candidate_eliminated t i = Inr t'" by blast
      show ?thesis
      proof (intro impI allI)
        fix r reduced assume wf: "wf_table t" and y: "y = Inr (r, reduced)"
        have wf': "wf_table t'" by (rule eliminated_wf(1)[OF wf el])
        have sub: "set (names t') \<subseteq> set (names t)" by (rule eliminated_names_subset[OF wf el])
        from 1(1)[OF rec] wf' y have "result_name r \<in> set (names t')" "wf_table reduced"
          "set (names reduced) \<subseteq> set (names t')" by auto
        then show "result_name r \<in> set (names t) \<and> wf_table reduced \<and>
              set (names reduced) \<subseteq> set (names t)" using sub by auto
      qed
    qed
  qed
qed

lemma rank_body_Inr:
  assumes "rank_body prompt N rank (table, ranked, ineligible) = Some (Inr (table', ranked', ineligible'))"
  obtains full_table r reduced where
    "copy table = Inr full_table"
    "runoff_round prompt table = Some (Inr (r, reduced))"
    "ranked' = (case r of Winner w \<Rightarrow> ranked @ [w] | Ineligible u \<Rightarrow> ranked)"
    "ineligible' = (case r of Winner w \<Rightarrow> ineligible | Ineligible u \<Rightarrow> ineligible @ [u])"
    "rank \<noteq> N - 1 \<Longrightarrow> \<exists>i. index_py (names full_table) (result_name r) = Inr i \<and>
        with_candidate_eliminated full_table i = Inr table'"
    "rank = N - 1 \<Longrightarrow> table' = reduced"
  using assms
  by (auto simp: rank_body_def Let_def split: sum.splits option.splits if_splits prod.splits)

lemma rank_body_invariant:
  assumes rb: "rank_body prompt N rank (table, ranked, ineligible) = Some (Inr (table', ranked', ineligible'))"
    and wf: "wf_table table"
    and len: "length (names table) = N - rank" and rk: "rank < N"
  shows "\<exists>w. w \<in># mset (names table) \<and>
             mset ranked' + mset ineligible' = mset ranked + mset ineligible + {#w#} \<and>
             (Suc rank < N \<longrightarrow> wf_table table' \<and> length (names table') = N - Suc rank \<and>
                mset (names table') = mset (names table) - {#w#})"
proof -
  from rank_body_Inr[OF rb] obtain full_table r reduced where
    cp: "copy table = Inr full_table" and
    rr: "runoff_round prompt table = Some (Inr (r, reduced))" and
    r': "ranked' = (case r of Winner w \<Rightarrow> ranked @ [w] | Ineligible u \<Rightarrow> ranked)" and
    i': "ineligible' = (case r of Winner w \<Rightarrow> ineligible | Ineligible u \<Rightarrow> ineligible @ [u])" and
    nx: "rank \<noteq> N - 1 \<Longrightarrow> \<exists>i. index_py (names full_table) (result_name r) = Inr i \<and>
        with_candidate_eliminated full_table i = Inr table'"
    by metis
  let ?w = "result_name r"
  have w: "?w \<in> set (names table)" using runoff_round_result[OF rr] wf by simp
  have sum: "mset ranked' + mset ineligible' = mset ranked + mset ineligible + {#?w#}"
    unfolding r' i' by (cases r) simp_all
  have nxt: "wf_table table' \<and> length (names table') = N - Suc rank \<and>
                mset (names table') = mset (names table) - {#?w#}" if "Suc rank < N"
  proof -
    have "rank \<noteq> N - 1" using that by simp
    from nx[OF this] obtain i where i: "index_py (names full_table) ?w = Inr i"
      and el: "with_candidate_eliminated full_table i = Inr table'" by blast
    have wff: "wf_table full_table" and nf: "mset (names full_table) = mset (names table)"
      using copy_wf[OF wf cp] by auto
    have il: "i < length (names full_table)" and iw: "names full_table ! i = ?w"
      using index_py_Inr[OF i] by auto
    have in': "i < N_candidates full_table" using il wff by (simp add: wf_table_def)
    note v = eliminated_names_valid[OF wff el in']
    have m: "mset (names table') = mset (names table) - {#?w#}" using v(1) nf iw by simp
    have "length (names table') = length (names table) - 1"
      using m w by (metis mset_remove1 length_remove1 size_mset)
    then show ?thesis using m eliminated_wf(1)[OF wff el] len by simp
  qed
  show ?thesis using w sum nxt by auto
qed

lemma rank_loop_partition:
  assumes "rank_loop prompt N [k..<N] (table, ranked, ineligible)
             = Some (Inr (table', ranked', ineligible'))"
    and "k \<le> N"
    and "k < N \<longrightarrow> wf_table table \<and> length (names table) = N - k \<and>
           mset (names table) + mset ranked + mset ineligible = M"
    and "k = N \<longrightarrow> mset ranked + mset ineligible = M"
  shows "mset ranked' + mset ineligible' = M"
  using assms
proof (induction "N - k" arbitrary: k table ranked ineligible)
  case 0
  then show ?case by simp
next
  case (Suc d)
  then have kN: "k < N" by simp
  have up: "[k..<N] = k # [Suc k..<N]" using kN by (simp add: upt_conv_Cons)
  from Suc.prems(1) obtain st where
    rb: "rank_body prompt N k (table, ranked, ineligible) = Some (Inr st)" and
    rl: "rank_loop prompt N [Suc k..<N] st = Some (Inr (table', ranked', ineligible'))"
    unfolding up by (auto split: option.splits sum.splits)
  obtain t2 r2 i2 where st: "st = (t2, r2, i2)" by (cases st)
  have wf: "wf_table table" and len: "length (names table) = N - k"
    and M: "mset (names table) + mset ranked + mset ineligible = M"
    using Suc.prems(3) kN by auto
  from rank_body_invariant[OF rb[unfolded st] wf len kN] obtain w where
    w: "w \<in># mset (names table)" and
    sum: "mset r2 + mset i2 = mset ranked + mset ineligible + {#w#}" and
    nxt: "Suc k < N \<longrightarrow> wf_table t2 \<and> length (names t2) = N - Suc k \<and>
                mset (names t2) = mset (names table) - {#w#}"
    by blast
  have d: "d = N - Suc k" using Suc.hyps(2) by simp
  have a3: "Suc k < N \<longrightarrow> wf_table t2 \<and> length (names t2) = N - Suc k \<and>
           mset (names t2) + mset r2 + mset i2 = M"
  proof
    assume s: "Suc k < N"
    then have "mset (names t2) + {#w#} = mset (names table)" using nxt w by simp
    then show "wf_table t2 \<and> length (names t2) = N - Suc k \<and>
           mset (names t2) + mset r2 + mset i2 = M" using nxt s sum M
      by (metis (no_types, lifting) add.assoc add.commute)
  qed
  have a4: "Suc k = N \<longrightarrow> mset r2 + mset i2 = M"
  proof
    assume s: "Suc k = N"
    then have "length (names table) = 1" using len by simp
    then obtain x where x: "names table = [x]" by (cases "names table") auto
    then have "w = x" using w by simp
    then show "mset r2 + mset i2 = M" using sum M x by simp
  qed
  show ?case
    by (rule Suc.hyps(1)[OF d rl[unfolded st] _ a3 a4]) (use kN in simp)
qed

text \<open>
  Claim C4, as amended. When no candidate holds a majority and at least two candidates
  remain, one pass of the loop tests with \<open>check_tied\<close> the last two candidates of the
  sorted order, the two strongest; if their count vectors differ or are all zeros it
  eliminates index \<open>0\<close> without asking, and otherwise it eliminates the index the prompt
  answers.
\<close>

theorem round_body_elimination:
  assumes "aligned vs ns" and "new_VoteTable vs ns = Inr t"
    and "compute_winner t = Inr None" and "2 \<le> N_candidates t"
  shows "round_body prompt t =
     (if \<not> (counts t ! (N_candidates t - 1) = counts t ! (N_candidates t - 2) \<and>
              (\<exists>c \<in> set (counts t ! (N_candidates t - 1)). c \<noteq> 0))
      then (case with_candidate_eliminated t 0 of Inl e \<Rightarrow> Inl e | Inr t' \<Rightarrow> Inr (Inr t'))
      else (case prompt t of
              Inl e \<Rightarrow> Inl e
            | Inr i \<Rightarrow> (case with_candidate_eliminated t i of
                          Inl e \<Rightarrow> Inl e | Inr t' \<Rightarrow> Inr (Inr t'))))"
proof -
  have wf: "wf_table t" by (rule new_VoteTable_wf[OF assms(2,1)])
  have n1: "N_candidates t \<noteq> 1" using assms(4) by simp
  show ?thesis
    unfolding round_body_def choose_loser_def check_tied_wf[OF wf assms(4)]
    using assms(3) n1 by auto
qed

theorem round_body_elimination_witness:
  "aligned [[Some 2, Some 3, Some 1], [Some 3, Some 2, Some 1],
            [Some 1, Some 2, Some 3], [Some 2, Some 1, Some 3]] [''A'', ''B'', ''C''] \<and>
   new_VoteTable [[Some 2, Some 3, Some 1], [Some 3, Some 2, Some 1],
                  [Some 1, Some 2, Some 3], [Some 2, Some 1, Some 3]] [''A'', ''B'', ''C'']
     = Inr \<lparr>votes = [[Some 2, Some 3, Some 1], [Some 3, Some 2, Some 1],
                     [Some 1, Some 2, Some 3], [Some 2, Some 1, Some 3]],
            names = [''A'', ''B'', ''C''], counts = [[1, 2, 1], [1, 2, 1], [2, 0, 2]],
            N_votes = 4, N_candidates = 3\<rparr> \<and>
   compute_winner \<lparr>votes = [[Some 2, Some 3, Some 1], [Some 3, Some 2, Some 1],
                     [Some 1, Some 2, Some 3], [Some 2, Some 1, Some 3]],
            names = [''A'', ''B'', ''C''], counts = [[1, 2, 1], [1, 2, 1], [2, 0, 2]],
            N_votes = 4, N_candidates = 3\<rparr> = Inr None \<and>
   round_body (\<lambda>t. Inr 1) \<lparr>votes = [[Some 2, Some 3, Some 1], [Some 3, Some 2, Some 1],
                     [Some 1, Some 2, Some 3], [Some 2, Some 1, Some 3]],
            names = [''A'', ''B'', ''C''], counts = [[1, 2, 1], [1, 2, 1], [2, 0, 2]],
            N_votes = 4, N_candidates = 3\<rparr>
     = Inr (Inr \<lparr>votes = [[Some 1, Some 2], [Some 1, Some 2], [Some 2, Some 1], [Some 2, Some 1]],
                 names = [''C'', ''B''], counts = [[2, 2], [2, 2]], N_votes = 4,
                 N_candidates = 2\<rparr>)"
proof -
  let ?T = "\<lparr>votes = [[Some 2, Some 3, Some 1], [Some 3, Some 2, Some 1],
                     [Some 1, Some 2, Some 3], [Some 2, Some 1, Some 3]],
            names = [''A'', ''B'', ''C''], counts = [[1, 2, 1], [1, 2, 1], [2, 0, 2]],
            N_votes = 4, N_candidates = 3\<rparr>"
  have a: "aligned [[Some 2, Some 3, Some 1], [Some 3, Some 2, Some 1],
            [Some 1, Some 2, Some 3], [Some 2, Some 1, Some 3]] [''A'', ''B'', ''C'']"
    by (simp add: aligned_def)
  have t: "new_VoteTable [[Some 2, Some 3, Some 1], [Some 3, Some 2, Some 1],
                  [Some 1, Some 2, Some 3], [Some 2, Some 1, Some 3]] [''A'', ''B'', ''C''] = Inr ?T"
    by code_simp
  have w: "compute_winner ?T = Inr None" by (simp add: compute_winner_def)
  have n: "2 \<le> N_candidates ?T" by simp
  have e: "with_candidate_eliminated ?T 0
     = Inr \<lparr>votes = [[Some 1, Some 2], [Some 1, Some 2], [Some 2, Some 1], [Some 2, Some 1]],
                 names = [''C'', ''B''], counts = [[2, 2], [2, 2]], N_votes = 4,
                 N_candidates = 2\<rparr>"
    by code_simp
  show ?thesis
    using a t w e round_body_elimination [OF a t w n, of "\<lambda>t. Inr 1"] by simp
qed

text \<open>
  Claim C4 as stated fails: below, the two weakest candidates \<open>A\<close> and \<open>B\<close> have the same
  nonzero count vector, no candidate has a majority, and index \<open>0\<close> is eliminated
  although the prompt would have answered \<open>1\<close>.
\<close>

theorem choose_loser_counterexample:
  "new_VoteTable [[Some 2, Some 3, Some 1], [Some 3, Some 2, Some 1],
                  [Some 1, Some 2, Some 3], [Some 2, Some 1, Some 3]] [''A'', ''B'', ''C'']
     = Inr \<lparr>votes = [[Some 2, Some 3, Some 1], [Some 3, Some 2, Some 1],
                     [Some 1, Some 2, Some 3], [Some 2, Some 1, Some 3]],
            names = [''A'', ''B'', ''C''], counts = [[1, 2, 1], [1, 2, 1], [2, 0, 2]],
            N_votes = 4, N_candidates = 3\<rparr> \<and>
   compute_winner \<lparr>votes = [[Some 2, Some 3, Some 1], [Some 3, Some 2, Some 1],
                     [Some 1, Some 2, Some 3], [Some 2, Some 1, Some 3]],
            names = [''A'', ''B'', ''C''], counts = [[1, 2, 1], [1, 2, 1], [2, 0, 2]],
            N_votes = 4, N_candidates = 3\<rparr> = Inr None \<and>
   weakest_two_tied \<lparr>votes = [[Some 2, Some 3, Some 1], [Some 3, Some 2, Some 1],
                     [Some 1, Some 2, Some 3], [Some 2, Some 1, Some 3]],
            names = [''A'', ''B'', ''C''], counts = [[1, 2, 1], [1, 2, 1], [2, 0, 2]],
            N_votes = 4, N_candidates = 3\<rparr> \<and>
   claimed_choose_loser (\<lambda>t. Inr 1) \<lparr>votes = [[Some 2, Some 3, Some 1], [Some 3, Some 2, Some 1],
                     [Some 1, Some 2, Some 3], [Some 2, Some 1, Some 3]],
            names = [''A'', ''B'', ''C''], counts = [[1, 2, 1], [1, 2, 1], [2, 0, 2]],
            N_votes = 4, N_candidates = 3\<rparr> = Inr 1 \<and>
   choose_loser (\<lambda>t. Inr 1) \<lparr>votes = [[Some 2, Some 3, Some 1], [Some 3, Some 2, Some 1],
                     [Some 1, Some 2, Some 3], [Some 2, Some 1, Some 3]],
            names = [''A'', ''B'', ''C''], counts = [[1, 2, 1], [1, 2, 1], [2, 0, 2]],
            N_votes = 4, N_candidates = 3\<rparr> = Inr 0"
proof -
  have "new_VoteTable [[Some 2, Some 3, Some 1], [Some 3, Some 2, Some 1],
                  [Some 1, Some 2, Some 3], [Some 2, Some 1, Some 3]] [''A'', ''B'', ''C'']
     = Inr \<lparr>votes = [[Some 2, Some 3, Some 1], [Some 3, Some 2, Some 1],
                     [Some 1, Some 2, Some 3], [Some 2, Some 1, Some 3]],
            names = [''A'', ''B'', ''C''], counts = [[1, 2, 1], [1, 2, 1], [2, 0, 2]],
            N_votes = 4, N_candidates = 3\<rparr>"
    by code_simp
  then show ?thesis
    by (simp add: compute_winner_def weakest_two_tied_def claimed_choose_loser_def
          choose_loser_def check_tied_def)
qed

lemma returned_partition:
  assumes "aligned vs ns" and "distinct ns" and "new_VoteTable vs ns = Inr table"
    and "instant_runoff prompt table = Some (Inr res)"
  shows "mset (ranking res) + mset (ineligible_candidates res) = mset ns \<and>
         distinct (ranking res @ ineligible_candidates res) \<and>
         set (ranking res) \<inter> set (ineligible_candidates res) = {} \<and>
         set (ranking res) \<union> set (ineligible_candidates res) = set ns \<and>
         length (ranking res) \<le> N_candidates table"
proof -
  let ?N = "N_candidates table"
  note f = new_VoteTable_aligned[OF assms(3,1)]
  have wf: "wf_table table" by (rule new_VoteTable_wf[OF assms(3,1)])
  have nm: "mset (names table) = mset ns" by (rule new_VoteTable_names[OF assms(3,1)])
  from assms(4) obtain t' where
    rl: "rank_loop prompt ?N [0..<?N] (table, [], []) =
           Some (Inr (t', ranking res, ineligible_candidates res))"
    by (auto simp: instant_runoff_def Let_def split: option.splits sum.splits prod.splits)
  have m: "mset (ranking res) + mset (ineligible_candidates res) = mset ns"
  proof (rule rank_loop_partition[OF rl])
    show "0 \<le> ?N" by simp
    show "0 < ?N \<longrightarrow> wf_table table \<and> length (names table) = ?N - 0 \<and>
            mset (names table) + mset [] + mset [] = mset ns"
      using wf nm f(4,6) by simp
    show "0 = ?N \<longrightarrow> mset [] + mset [] = mset ns" using f(2,4) by simp
  qed
  then have m': "mset (ranking res @ ineligible_candidates res) = mset ns" by simp
  then have d: "distinct (ranking res @ ineligible_candidates res)"
    using assms(2) by (metis mset_eq_imp_distinct_iff)
  have s: "set (ranking res @ ineligible_candidates res) = set ns"
    using m' by (rule mset_eq_setD)
  have "length (ranking res @ ineligible_candidates res) = length ns"
    using m' by (metis size_mset)
  then have l: "length (ranking res) \<le> ?N" using f(4) by simp
  show ?thesis using m d s l by auto
qed

section \<open>Termination\<close>

lemma choose_loser_range:
  assumes "wf_table t" and "\<forall>t i. wf_table t \<longrightarrow> prompt t = Inr i \<longrightarrow> i < N_candidates t"
    and "choose_loser prompt t = Inr i"
  shows "i < N_candidates t"
proof -
  have "0 < N_candidates t" using assms(1) by (simp add: wf_table_def)
  then show ?thesis using assms
    by (auto simp: choose_loser_def split: sum.splits if_splits)
qed

lemma round_body_step:
  assumes "wf_table t" and "\<forall>t i. wf_table t \<longrightarrow> prompt t = Inr i \<longrightarrow> i < N_candidates t"
    and "round_body prompt t = Inr (Inr t')"
  shows "wf_table t'" and "Suc (N_candidates t') = N_candidates t"
proof -
  from round_body_continue[OF assms(3)] obtain i where
    c: "choose_loser prompt t = Inr i" and e: "with_candidate_eliminated t i = Inr t'" by blast
  have i: "i < N_candidates t" by (rule choose_loser_range[OF assms(1,2) c])
  show "wf_table t'" by (rule eliminated_wf(1)[OF assms(1) e])
  show "Suc (N_candidates t') = N_candidates t"
    using eliminated_names_valid(2)[OF assms(1) e i] i by simp
qed

lemma runoff_round_terminates:
  assumes "wf_table t" and "\<forall>t i. wf_table t \<longrightarrow> prompt t = Inr i \<longrightarrow> i < N_candidates t"
  shows "\<exists>y. runoff_round prompt t = Some y"
  using assms(1)
proof (induction "N_candidates t" arbitrary: t rule: less_induct)
  case less
  show ?case
  proof (cases "round_body prompt t")
    case (Inl e)
    then show ?thesis by (subst runoff_round.simps) simp
  next
    case (Inr s)
    show ?thesis
    proof (cases s)
      case (Inl r)
      then show ?thesis using Inr by (subst runoff_round.simps) simp
    next
      case (Inr t')
      with \<open>round_body prompt t = Inr s\<close> have rb: "round_body prompt t = Inr (Inr t')" by simp
      note st = round_body_step[OF less.prems assms(2) rb]
      have "N_candidates t' < N_candidates t" using st(2) by simp
      from less.hyps[OF this st(1)] obtain y where "runoff_round prompt t' = Some y" by blast
      then show ?thesis using rb by (subst runoff_round.simps) simp
    qed
  qed
qed

lemma eliminations_count:
  assumes "(eliminates prompt ^^ k) t t'" and "wf_table t"
    and "\<forall>t i. wf_table t \<longrightarrow> prompt t = Inr i \<longrightarrow> i < N_candidates t"
  shows "wf_table t' \<and> N_candidates t' + k = N_candidates t"
  using assms(1)
proof (induction k arbitrary: t')
  case 0
  then show ?case using assms(2) by simp
next
  case (Suc k)
  then obtain u where u: "(eliminates prompt ^^ k) t u" and s: "eliminates prompt u t'"
    by auto
  from Suc.IH[OF u] have wu: "wf_table u" and nu: "N_candidates u + k = N_candidates t" by auto
  note st = round_body_step[OF wu assms(3) s[unfolded eliminates_def]]
  show ?case using st nu by simp
qed

lemma eliminations_bound:
  assumes "(eliminates prompt ^^ k) t t'" and "wf_table t"
    and "\<forall>t i. wf_table t \<longrightarrow> prompt t = Inr i \<longrightarrow> i < N_candidates t"
  shows "k < N_candidates t"
proof -
  from eliminations_count[OF assms] have "wf_table t'" "N_candidates t' + k = N_candidates t"
    by auto
  moreover from this(1) have "0 < N_candidates t'" by (simp add: wf_table_def)
  ultimately show ?thesis by simp
qed

lemma rank_body_terminates:
  assumes "wf_table table" and "\<forall>t i. wf_table t \<longrightarrow> prompt t = Inr i \<longrightarrow> i < N_candidates t"
  shows "\<exists>y. rank_body prompt N rank (table, ranked, ineligible) = Some y"
proof -
  from runoff_round_terminates[OF assms] obtain y where "runoff_round prompt table = Some y"
    by blast
  then show ?thesis
    by (auto simp: rank_body_def Let_def split: sum.splits option.splits prod.splits)
qed

lemma rank_loop_terminates:
  assumes "\<forall>t i. wf_table t \<longrightarrow> prompt t = Inr i \<longrightarrow> i < N_candidates t"
    and "k \<le> N"
    and "k < N \<longrightarrow> wf_table table \<and> length (names table) = N - k"
  shows "\<exists>y. rank_loop prompt N [k..<N] (table, ranked, ineligible) = Some y"
  using assms(2,3)
proof (induction "N - k" arbitrary: k table ranked ineligible)
  case 0
  then show ?case by simp
next
  case (Suc d)
  then have kN: "k < N" by simp
  have up: "[k..<N] = k # [Suc k..<N]" using kN by (simp add: upt_conv_Cons)
  have wf: "wf_table table" and len: "length (names table) = N - k" using Suc.prems(2) kN by auto
  from rank_body_terminates[OF wf assms(1)] obtain y where
    y: "rank_body prompt N k (table, ranked, ineligible) = Some y" by blast
  show ?case
  proof (cases y)
    case (Inl e)
    then show ?thesis using y up by simp
  next
    case (Inr st)
    obtain t2 r2 i2 where st: "st = (t2, r2, i2)" by (cases st)
    from rank_body_invariant[OF y[unfolded Inr st] wf len kN]
    have nxt: "Suc k < N \<longrightarrow> wf_table t2 \<and> length (names t2) = N - Suc k" by blast
    have d: "d = N - Suc k" using Suc.hyps(2) by simp
    have "\<exists>y. rank_loop prompt N [Suc k..<N] (t2, r2, i2) = Some y"
      by (rule Suc.hyps(1)[OF d _ nxt]) (use kN in simp)
    then show ?thesis using y Inr st up by simp
  qed
qed

lemma rank_loop_append:
  "rank_loop prompt N (xs @ ys) st =
     (case rank_loop prompt N xs st of
        None \<Rightarrow> None
      | Some (Inl e) \<Rightarrow> Some (Inl e)
      | Some (Inr st') \<Rightarrow> rank_loop prompt N ys st')"
  by (induction xs arbitrary: st) (auto split: option.splits sum.splits)

lemma rank_loop_prefix:
  assumes "wf_table table" and "length (names table) = N"
  shows "k < N \<Longrightarrow>
         rank_loop prompt N [0..<k] (table, [], []) = Some (Inr (t, ranked, ineligible)) \<Longrightarrow>
         wf_table t \<and> length (names t) = N - k"
proof (induction k arbitrary: t ranked ineligible)
  case 0
  then show ?case using assms by simp
next
  case (Suc k)
  have "[0..<Suc k] = [0..<k] @ [k]" by simp
  with Suc.prems(2) obtain st where
    p: "rank_loop prompt N [0..<k] (table, [], []) = Some (Inr st)" and
    b: "rank_body prompt N k st = Some (Inr (t, ranked, ineligible))"
    by (auto simp: rank_loop_append split: option.splits sum.splits simp del: upt_Suc)
  obtain t2 r2 i2 where st: "st = (t2, r2, i2)" by (cases st)
  have k: "k < N" using Suc.prems(1) by simp
  from Suc.IH[OF k p[unfolded st]] have wf: "wf_table t2" and len: "length (names t2) = N - k"
    by auto
  from rank_body_invariant[OF b[unfolded st] wf len k] Suc.prems(1)
  show ?case by blast
qed

section \<open>The exceptions a run can raise\<close>

text \<open>
  On a table built from aligned ballots no operation raises anything but the
  \<open>TypeError\<close> of the joint sort: the ranks that \<open>get_rank_order\<close> assigns are keys of
  the counter, the sequences indexed from the end are not empty, and the name looked up
  by \<^verbatim>\<open>index\<close> is in the snapshot. The only other exception of a run is the one its
  prompt answers with.
\<close>

lemma get_rank_order_range:
  assumes "v \<in> set (get_rank_order xs)"
  shows "v = None \<or> (\<exists>r. v = Some r \<and> 1 \<le> r \<and> r \<le> int (length xs))"
proof -
  from assms obtain i where i: "i < length xs" and v: "get_rank_order xs ! i = v"
    by (metis get_rank_order_length in_set_conv_nth)
  show ?thesis
  proof (cases "xs ! i")
    case None
    then show ?thesis using get_rank_order_None[OF i] v by simp
  next
    case (Some a)
    then obtain p where p: "p < length (sorted_indices xs)"
        "get_rank_order xs ! i = Some (int p + 1)"
      using get_rank_order_Some[of i xs] i by auto
    have "length (sorted_indices xs) \<le> length xs"
      by (simp add: sorted_indices_length)
    then show ?thesis using p v by auto
  qed
qed

lemma tally_total:
  "\<forall>v \<in> set col. v = None \<or> (\<exists>r. v = Some r \<and> r \<in> dom counter) \<Longrightarrow>
   \<exists>counter'. tally counter col = Inr counter'"
proof (induction counter col rule: tally.induct)
  case (1 counter)
  then show ?case by simp
next
  case (2 counter rest)
  then show ?case by simp
next
  case (3 counter vote rest)
  then obtain c where c: "counter vote = Some c" by auto
  have "dom (counter(vote \<mapsto> c + 1)) = dom counter" using c by auto
  then have "\<forall>v \<in> set rest. v = None \<or> (\<exists>r. v = Some r \<and> r \<in> dom (counter(vote \<mapsto> c + 1)))"
    using 3(2) by simp
  from 3(1)[OF c this] obtain counter' where
    "tally (counter(vote \<mapsto> c + 1)) rest = Inr counter'" by blast
  then show ?case using c by (simp del: fun_upd_apply)
qed

lemma count_column_total:
  assumes "\<forall>v \<in> set col. v = None \<or> (\<exists>r. v = Some r \<and> 1 \<le> r \<and> r \<le> int n)"
  shows "\<exists>c. count_column n col = Inr c"
proof -
  have "dom (new_counter n) = {r. 1 \<le> r \<and> r \<le> int n}"
    by (auto simp: new_counter_apply dom_def)
  then have "\<forall>v \<in> set col. v = None \<or> (\<exists>r. v = Some r \<and> r \<in> dom (new_counter n))"
    using assms by auto
  from tally_total[OF this] show ?thesis by (auto simp: count_column_def)
qed

lemma count_all_total:
  assumes "\<forall>x \<in> set xs. \<forall>v \<in> set (snd x). v = None \<or> (\<exists>r. v = Some r \<and> 1 \<le> r \<and> r \<le> int n)"
  shows "\<exists>cs. count_all n xs = Inr cs"
  using assms
proof (induction xs)
  case Nil
  then show ?case by simp
next
  case (Cons x xs)
  obtain candidate col where x: "x = (candidate, col)" by (cases x)
  from Cons.prems x obtain c where c: "count_column n col = Inr c"
    using count_column_total[of col n] by auto
  from Cons obtain cs where "count_all n xs = Inr cs" by auto
  then show ?case using c x by simp
qed

lemma insort_py_error: "insort_py lt_entry x ys = Inl e \<Longrightarrow> e = TypeError"
proof (induction ys)
  case Nil
  then show ?case by simp
next
  case (Cons y ys)
  then show ?case
    using lt_entry_error[of y x e] by (auto split: sum.splits bool.splits)
qed

lemma sorted_py_error: "sorted_py lt_entry xs = Inl e \<Longrightarrow> e = TypeError"
proof (induction xs)
  case Nil
  then show ?case by simp
next
  case (Cons x xs)
  then show ?case using insort_py_error by (auto split: sum.splits)
qed

lemma new_VoteTable_total:
  assumes al: "aligned vs ns" and vne: "vs \<noteq> []" and nne: "ns \<noteq> []"
  shows "new_VoteTable vs ns = Inl TypeError \<or> (\<exists>t. new_VoteTable vs ns = Inr t)"
proof -
  let ?n = "length ns"
  let ?vs = "map get_rank_order vs"
  let ?cols = "p3zip ?vs"
  have vne': "?vs \<noteq> []" using vne by simp
  have rect: "\<forall>row \<in> set ?vs. length row = ?n"
    using al by (auto simp: aligned_def list_all_iff get_rank_order_length)
  have lcols: "length ?cols = ?n" by (rule p3zip_rect_length[OF vne' rect])
  have ok: "\<forall>x \<in> set (zip ns ?cols). \<forall>v \<in> set (snd x).
              v = None \<or> (\<exists>r. v = Some r \<and> 1 \<le> r \<and> r \<le> int ?n)"
  proof (intro ballI)
    fix x v assume x: "x \<in> set (zip ns ?cols)" and v: "v \<in> set (snd x)"
    from x have "snd x \<in> set ?cols" by (metis prod.collapse set_zip_rightD)
    then obtain i where i: "i < ?n" and c: "snd x = ?cols ! i"
      using lcols by (metis in_set_conv_nth)
    have "?cols ! i = map (\<lambda>row. row ! i) ?vs" by (rule p3zip_rect_nth[OF vne' rect i])
    then obtain b where b: "b \<in> set vs" and vb: "v = get_rank_order b ! i"
      using v c by auto
    have lb: "length b = ?n" using al b by (simp add: aligned_def list_all_iff)
    then have "v \<in> set (get_rank_order b)" using vb i by (simp add: get_rank_order_length)
    from get_rank_order_range[OF this] lb
    show "v = None \<or> (\<exists>r. v = Some r \<and> 1 \<le> r \<and> r \<le> int ?n)" by simp
  qed
  from count_all_total[OF ok] obtain cs where cs: "count_all ?n (zip ns ?cols) = Inr cs" by blast
  have lcs: "length cs = ?n" using count_all_Inr[OF cs] lcols by simp
  show ?thesis
  proof (cases "sorted_py lt_entry (zip cs (zip ?cols ns))")
    case (Inl e)
    then have "e = TypeError" by (rule sorted_py_error)
    then show ?thesis using cs Inl
      by (simp add: new_VoteTable_def maintain_def update_counts_def reduce_ranks_def
            votes_by_candidate_def)
  next
    case (Inr es)
    have "mset es = mset (zip cs (zip ?cols ns))" using sorted_py_Inr[OF Inr] by simp
    then have "length es = ?n" using lcs lcols by (metis length_zip min.idem size_mset)
    then have "es \<noteq> []" using nne by auto
    then show ?thesis using cs Inr
      by (cases es)
         (simp_all add: new_VoteTable_def maintain_def update_counts_def reduce_ranks_def
            votes_by_candidate_def)
  qed
qed

lemma copy_total:
  assumes "wf_table t"
  shows "copy t = Inl TypeError \<or> (\<exists>t'. copy t = Inr t')"
  using assms new_VoteTable_total[of "votes t" "names t"]
  by (simp add: copy_def wf_table_def)

lemma eliminated_total:
  assumes wf: "wf_table t" and two: "2 \<le> N_candidates t" and i: "i < N_candidates t"
  shows "with_candidate_eliminated t i = Inl TypeError \<or>
         (\<exists>t'. with_candidate_eliminated t i = Inr t')"
proof -
  let ?cols = "p3zip (votes t)"
  let ?new = "take i ?cols @ drop (i + 1) ?cols"
  let ?nn = "take i (names t) @ drop (i + 1) (names t)"
  note c = wf_table_columns[OF wf]
  have n: "N_candidates t = length (names t)" and vne: "votes t \<noteq> []"
    using wf by (simp_all add: wf_table_def)
  have ln: "length ?new = length (names t) - 1" using c(1) i n by simp
  then have nne: "?new \<noteq> []" using two n by auto
  have rect: "\<forall>col \<in> set ?new. length col = length (votes t)"
    using c(2) by (auto dest: in_set_takeD in_set_dropD)
  have "length (p3zip ?new) = length (votes t)" by (rule p3zip_rect_length[OF nne rect])
  then have rne: "p3zip ?new \<noteq> []" using vne by auto
  have "length ?nn = length (names t) - 1" using i n by simp
  then have nnne: "?nn \<noteq> []" using two n by auto
  have al: "aligned (p3zip ?new) ?nn" by (rule eliminated_input_aligned[OF wf])
  from new_VoteTable_total[OF al rne nnne] show ?thesis
    by (simp add: with_candidate_eliminated_def votes_by_candidate_def Let_def)
qed

lemma tie_prompt_raises: "tie_prompt typed t = Inl AttributeError"
  by (simp add: tie_prompt_def print_table_def)

lemma round_body_errors:
  assumes wf: "wf_table t"
    and h1: "\<forall>t i. wf_table t \<longrightarrow> prompt t = Inr i \<longrightarrow> i < N_candidates t"
    and h2: "\<forall>t e. prompt t = Inl e \<longrightarrow> e = TypeError \<or> e = AttributeError"
    and rb: "round_body prompt t = Inl e"
  shows "e = TypeError \<or> e = AttributeError"
proof -
  have n: "N_candidates t = length (names t)" and nne: "names t \<noteq> []"
    using wf by (simp_all add: wf_table_def)
  note cw = compute_winner_wf[OF wf]
  show ?thesis
  proof (cases "N_candidates t = 1")
    case True
    then obtain u where "names t = [u]" using n by (cases "names t") auto
    then show ?thesis using rb cw True by (auto simp: round_body_def split: if_splits)
  next
    case False
    moreover have "0 < length (names t)" using nne by simp
    ultimately have two: "2 \<le> N_candidates t" using n by linarith
    note ct = check_tied_wf[OF wf two]
    show ?thesis
    proof (cases "choose_loser prompt t")
      case (Inl e')
      then have "prompt t = Inl e'" using ct by (auto simp: choose_loser_def split: if_splits)
      then have "e' = TypeError \<or> e' = AttributeError" using h2 by blast
      moreover have "e = e'" using rb cw False Inl
        by (auto simp: round_body_def split: if_splits)
      ultimately show ?thesis by simp
    next
      case (Inr i)
      have i: "i < N_candidates t" by (rule choose_loser_range[OF wf h1 Inr])
      from eliminated_total[OF wf two i] show ?thesis using rb cw False Inr
        by (auto simp: round_body_def split: if_splits)
    qed
  qed
qed

lemma runoff_round_errors:
  assumes "runoff_round prompt t = Some y"
  shows "wf_table t \<and>
         (\<forall>t i. wf_table t \<longrightarrow> prompt t = Inr i \<longrightarrow> i < N_candidates t) \<and>
         (\<forall>t e. prompt t = Inl e \<longrightarrow> e = TypeError \<or> e = AttributeError) \<longrightarrow>
         (\<forall>e. y = Inl e \<longrightarrow> e = TypeError \<or> e = AttributeError)"
  using assms
proof (induction prompt t y rule: runoff_round.raw_induct[rotated 1, consumes 1])
  case (1 rr prompt t y)
  show ?case
  proof (intro impI allI)
    fix e
    assume h: "wf_table t \<and>
         (\<forall>t i. wf_table t \<longrightarrow> prompt t = Inr i \<longrightarrow> i < N_candidates t) \<and>
         (\<forall>t e. prompt t = Inl e \<longrightarrow> e = TypeError \<or> e = AttributeError)"
      and y: "y = Inl e"
    show "e = TypeError \<or> e = AttributeError"
    proof (cases "round_body prompt t")
      case (Inl e')
      then have "e' = e" using 1(2) y by simp
      then show ?thesis using round_body_errors[of t prompt e'] h Inl by blast
    next
      case (Inr s)
      show ?thesis
      proof (cases s)
        case (Inl r)
        then show ?thesis using Inr 1(2) y by simp
      next
        case (Inr t')
        with \<open>round_body prompt t = Inr s\<close> have rb: "round_body prompt t = Inr (Inr t')"
          by simp
        then have rec: "rr prompt t' = Some y" using 1(2) by simp
        have "wf_table t'" using round_body_step(1)[of t prompt t'] h rb by blast
        then show ?thesis using 1(1)[OF rec] h y by blast
      qed
    qed
  qed
qed

lemma rank_body_errors:
  assumes wf: "wf_table table" and len: "length (names table) = N - rank" and rk: "rank < N"
    and h1: "\<forall>t i. wf_table t \<longrightarrow> prompt t = Inr i \<longrightarrow> i < N_candidates t"
    and h2: "\<forall>t e. prompt t = Inl e \<longrightarrow> e = TypeError \<or> e = AttributeError"
    and rb: "rank_body prompt N rank (table, ranked, ineligible) = Some (Inl e)"
  shows "e = TypeError \<or> e = AttributeError"
proof (cases "copy table")
  case (Inl e')
  then have "e' = TypeError" using copy_total[OF wf] by auto
  then show ?thesis using rb Inl by (simp add: rank_body_def)
next
  case (Inr full_table)
  have wff: "wf_table full_table" and nf: "mset (names full_table) = mset (names table)"
    using copy_wf[OF wf Inr] by auto
  show ?thesis
  proof (cases "runoff_round prompt table")
    case None
    then show ?thesis using rb Inr by (simp add: rank_body_def)
  next
    case (Some y)
    show ?thesis
    proof (cases y)
      case (Inl e')
      then have "e' = e" using rb Inr Some by (simp add: rank_body_def)
      then show ?thesis using runoff_round_errors[OF Some] wf h1 h2 Inl by blast
    next
      case (Inr res)
      obtain r reduced where res: "res = (r, reduced)" by (cases res)
      have rr: "runoff_round prompt table = Some (Inr (r, reduced))"
        using Some Inr res by simp
      have w: "result_name r \<in> set (names table)" using runoff_round_result[OF rr] wf by simp
      have "set (names full_table) = set (names table)" using nf by (rule mset_eq_setD)
      then have "result_name r \<in> set (names full_table)" using w by simp
      from index_py_mem[OF this]
      obtain i where i: "index_py (names full_table) (result_name r) = Inr i" ..
      let ?ranked' = "case r of Winner w \<Rightarrow> ranked @ [w] | Ineligible u \<Rightarrow> ranked"
      let ?inel' = "case r of Winner w \<Rightarrow> ineligible | Ineligible u \<Rightarrow> ineligible @ [u]"
      have last_round: "rank_body prompt N rank (table, ranked, ineligible)
                          = Some (Inr (reduced, ?ranked', ?inel'))" if "rank = N - 1"
        using that by (simp add: rank_body_def rr \<open>copy table = Inr full_table\<close> Let_def)
      have other_round: "rank_body prompt N rank (table, ranked, ineligible)
          = (case with_candidate_eliminated full_table i of
               Inl e \<Rightarrow> Some (Inl e)
             | Inr table' \<Rightarrow> Some (Inr (table', ?ranked', ?inel')))" if "rank \<noteq> N - 1"
        using that by (simp add: rank_body_def rr i \<open>copy table = Inr full_table\<close> Let_def)
      have ne: "rank \<noteq> N - 1"
      proof
        assume "rank = N - 1"
        from last_round[OF this] rb show False by simp
      qed
      have "length (names full_table) = length (names table)" using nf by (metis size_mset)
      moreover have "N_candidates full_table = length (names full_table)"
        using wff by (simp add: wf_table_def)
      ultimately have nfl: "N_candidates full_table = N - rank" using len by simp
      then have two: "2 \<le> N_candidates full_table" using ne rk by simp
      have il: "i < N_candidates full_table"
        using index_py_Inr[OF i] wff by (simp add: wf_table_def)
      from eliminated_total[OF wff two il] show ?thesis
      proof
        assume "with_candidate_eliminated full_table i = Inl TypeError"
        then have "rank_body prompt N rank (table, ranked, ineligible) = Some (Inl TypeError)"
          using other_round[OF ne] by simp
        then show ?thesis using rb by simp
      next
        assume "\<exists>t'. with_candidate_eliminated full_table i = Inr t'"
        then obtain t' where "with_candidate_eliminated full_table i = Inr t'" by blast
        then have "rank_body prompt N rank (table, ranked, ineligible)
                     = Some (Inr (t', ?ranked', ?inel'))"
          using other_round[OF ne] by simp
        then show ?thesis using rb by simp
      qed
    qed
  qed
qed

lemma rank_loop_errors:
  assumes h1: "\<forall>t i. wf_table t \<longrightarrow> prompt t = Inr i \<longrightarrow> i < N_candidates t"
    and h2: "\<forall>t e. prompt t = Inl e \<longrightarrow> e = TypeError \<or> e = AttributeError"
  shows "k \<le> N \<Longrightarrow> (k < N \<longrightarrow> wf_table table \<and> length (names table) = N - k) \<Longrightarrow>
         rank_loop prompt N [k..<N] (table, ranked, ineligible) = Some (Inl e) \<Longrightarrow>
         e = TypeError \<or> e = AttributeError"
proof (induction "N - k" arbitrary: k table ranked ineligible)
  case 0
  then show ?case by simp
next
  case (Suc d)
  then have kN: "k < N" by simp
  have up: "[k..<N] = k # [Suc k..<N]" using kN by (simp add: upt_conv_Cons)
  have wf: "wf_table table" and len: "length (names table) = N - k" using Suc.prems(2) kN by auto
  show ?case
  proof (cases "rank_body prompt N k (table, ranked, ineligible)")
    case None
    then show ?thesis using Suc.prems(3) up by simp
  next
    case (Some y)
    show ?thesis
    proof (cases y)
      case (Inl e')
      then have "e' = e" using Suc.prems(3) up Some by simp
      then show ?thesis using rank_body_errors[OF wf len kN h1 h2] Some Inl by blast
    next
      case (Inr st)
      obtain t2 r2 i2 where st: "st = (t2, r2, i2)" by (cases st)
      have b: "rank_body prompt N k (table, ranked, ineligible) = Some (Inr (t2, r2, i2))"
        using Some Inr st by simp
      from rank_body_invariant[OF b wf len kN]
      have nxt: "Suc k < N \<longrightarrow> wf_table t2 \<and> length (names t2) = N - Suc k" by blast
      have d: "d = N - Suc k" using Suc.hyps(2) by simp
      have rl: "rank_loop prompt N [Suc k..<N] (t2, r2, i2) = Some (Inl e)"
        using Suc.prems(3) up b by simp
      show ?thesis
        by (rule Suc.hyps(1)[OF d _ nxt rl]) (use kN in simp)
    qed
  qed
qed

lemma tie_prompt_range:
  "\<forall>t i. wf_table t \<longrightarrow> tie_prompt typed t = Inr i \<longrightarrow> i < N_candidates t"
  by (simp add: tie_prompt_raises)

lemma tie_prompt_errors:
  "\<forall>t e. tie_prompt typed t = Inl e \<longrightarrow> e = TypeError \<or> e = AttributeError"
  by (simp add: tie_prompt_raises)

lemma instant_runoff_ends:
  assumes al: "aligned vs ns" and t: "new_VoteTable vs ns = Inr table"
    and h1: "\<forall>t i. wf_table t \<longrightarrow> prompt t = Inr i \<longrightarrow> i < N_candidates t"
  shows "\<exists>y. instant_runoff prompt table = Some y"
proof -
  let ?N = "N_candidates table"
  note f = new_VoteTable_aligned[OF t al]
  have wf: "wf_table table" by (rule new_VoteTable_wf[OF t al])
  have inv: "0 < ?N \<longrightarrow> wf_table table \<and> length (names table) = ?N - 0"
    using wf f(4,6) by simp
  from rank_loop_terminates[OF h1 _ inv, of "[]" "[]"] obtain y where
    y: "rank_loop prompt ?N [0..<?N] (table, [], []) = Some y" by auto
  then show ?thesis
    by (cases y) (auto simp: instant_runoff_def Let_def split: prod.splits)
qed

lemma instant_runoff_errors:
  assumes al: "aligned vs ns" and t: "new_VoteTable vs ns = Inr table"
    and h1: "\<forall>t i. wf_table t \<longrightarrow> prompt t = Inr i \<longrightarrow> i < N_candidates t"
    and h2: "\<forall>t e. prompt t = Inl e \<longrightarrow> e = TypeError \<or> e = AttributeError"
    and r: "instant_runoff prompt table = Some (Inl e)"
  shows "e = TypeError \<or> e = AttributeError"
proof -
  let ?N = "N_candidates table"
  note f = new_VoteTable_aligned[OF t al]
  have wf: "wf_table table" by (rule new_VoteTable_wf[OF t al])
  have inv: "0 < ?N \<longrightarrow> wf_table table \<and> length (names table) = ?N - 0"
    using wf f(4,6) by simp
  have "rank_loop prompt ?N [0..<?N] (table, [], []) = Some (Inl e)"
    using r by (auto simp: instant_runoff_def Let_def split: option.splits sum.splits prod.splits)
  from rank_loop_errors[OF h1 h2 _ inv this] show ?thesis by simp
qed

lemma instant_runoff_count:
  assumes al: "aligned vs ns" and t: "new_VoteTable vs ns = Inr table"
    and r: "instant_runoff prompt table = Some (Inr res)"
  shows "length (ranking res) + length (ineligible_candidates res) = N_candidates table"
proof -
  let ?N = "N_candidates table"
  note f = new_VoteTable_aligned[OF t al]
  have wf: "wf_table table" by (rule new_VoteTable_wf[OF t al])
  have inv: "0 < ?N \<longrightarrow> wf_table table \<and> length (names table) = ?N - 0"
    using wf f(4,6) by simp
  from r obtain t' where
    rl: "rank_loop prompt ?N [0..<?N] (table, [], []) =
         Some (Inr (t', ranking res, ineligible_candidates res))"
    by (auto simp: instant_runoff_def Let_def split: option.splits sum.splits prod.splits)
  have "mset (ranking res) + mset (ineligible_candidates res) = mset (names table)"
  proof (rule rank_loop_partition[OF rl])
    show "0 \<le> ?N" by simp
    show "0 < ?N \<longrightarrow> wf_table table \<and> length (names table) = ?N - 0 \<and>
          mset (names table) + mset [] + mset [] = mset (names table)"
      using inv by simp
    show "0 = ?N \<longrightarrow> mset [] + mset [] = mset (names table)" using f(2,4,6) by auto
  qed
  then have "size (mset (ranking res) + mset (ineligible_candidates res)) = length (names table)"
    by (metis size_mset)
  then show ?thesis using f(4,6) by simp
qed

section \<open>The outcome of a run\<close>

text \<open>
  The example of this section: seven ballots over \<open>A\<close>, \<open>B\<close>, \<open>C\<close>. Three rank \<open>A\<close> before
  \<open>B\<close>, two rank \<open>B\<close> before \<open>A\<close>, two rank \<open>C\<close> alone. Nobody has four first places, so
  the first round eliminates \<open>C\<close> and then \<open>B\<close> before \<open>A\<close> wins with five; the second round
  starts from the snapshot without \<open>A\<close> and finds \<open>B\<close>; the third finds \<open>C\<close> alone with two
  first places of seven, ineligible.
\<close>

text \<open>
  Claim C8. The automated run over a table built from aligned ballots and distinct names
  always ends, and it ends in one of two ways. Either it raises \<open>TypeError\<close> or
  \<open>AttributeError\<close> (the joint sort comparing an abstention, \<^verbatim>\<open>print_table\<close> at a tie),
  or it returns, and what it returns places every name exactly once: the ranking and
  the list of ineligible candidates together are a rearrangement of the names, the two
  lists are disjoint, and the ranking is no longer than the number of candidates.
\<close>

theorem instant_runoff_partition:
  assumes "aligned vs ns" and "distinct ns" and "new_VoteTable vs ns = Inr table"
  shows "\<exists>y. instant_runoff (tie_prompt typed) table = Some y \<and>
           (case y of
              Inl e \<Rightarrow> e = TypeError \<or> e = AttributeError
            | Inr res \<Rightarrow>
                mset (ranking res) + mset (ineligible_candidates res) = mset ns \<and>
                distinct (ranking res @ ineligible_candidates res) \<and>
                set (ranking res) \<inter> set (ineligible_candidates res) = {} \<and>
                set (ranking res) \<union> set (ineligible_candidates res) = set ns \<and>
                length (ranking res) \<le> N_candidates table)"
proof -
  from instant_runoff_ends[OF assms(1,3) tie_prompt_range] obtain y where
    y: "instant_runoff (tie_prompt typed) table = Some y" by blast
  show ?thesis
  proof (cases y)
    case (Inl e)
    from instant_runoff_errors[OF assms(1,3) tie_prompt_range tie_prompt_errors y[unfolded Inl]]
    show ?thesis using y Inl by simp
  next
    case (Inr res)
    from returned_partition[OF assms y[unfolded Inr]]
    show ?thesis using y Inr by simp
  qed
qed

theorem instant_runoff_partition_witness:
  "aligned [[Some 1, Some 2, None], [Some 1, Some 2, None], [Some 1, Some 2, None],
            [Some 2, Some 1, None], [Some 2, Some 1, None],
            [None, None, Some 1], [None, None, Some 1]] [''A'', ''B'', ''C''] \<and>
   distinct [''A'', ''B'', ''C''] \<and>
   new_VoteTable [[Some 1, Some 2, None], [Some 1, Some 2, None], [Some 1, Some 2, None],
                  [Some 2, Some 1, None], [Some 2, Some 1, None],
                  [None, None, Some 1], [None, None, Some 1]] [''A'', ''B'', ''C'']
     = Inr \<lparr>votes = [[None, Some 2, Some 1], [None, Some 2, Some 1], [None, Some 2, Some 1],
                     [None, Some 1, Some 2], [None, Some 1, Some 2],
                     [Some 1, None, None], [Some 1, None, None]],
            names = [''C'', ''B'', ''A''], counts = [[2, 0, 0], [2, 3, 0], [3, 2, 0]],
            N_votes = 7, N_candidates = 3\<rparr> \<and>
   runoff_round (tie_prompt (\<lambda>t. ''0''))
       \<lparr>votes = [[None, Some 2, Some 1], [None, Some 2, Some 1], [None, Some 2, Some 1],
                     [None, Some 1, Some 2], [None, Some 1, Some 2],
                     [Some 1, None, None], [Some 1, None, None]],
            names = [''C'', ''B'', ''A''], counts = [[2, 0, 0], [2, 3, 0], [3, 2, 0]],
            N_votes = 7, N_candidates = 3\<rparr>
     = Some (Inr (Winner ''A'',
                  \<lparr>votes = [[Some 1], [Some 1], [Some 1], [Some 1], [Some 1], [None], [None]],
                   names = [''A''], counts = [[5]], N_votes = 7, N_candidates = 1\<rparr>)) \<and>
   instant_runoff (tie_prompt (\<lambda>t. ''0''))
       \<lparr>votes = [[None, Some 2, Some 1], [None, Some 2, Some 1], [None, Some 2, Some 1],
                     [None, Some 1, Some 2], [None, Some 1, Some 2],
                     [Some 1, None, None], [Some 1, None, None]],
            names = [''C'', ''B'', ''A''], counts = [[2, 0, 0], [2, 3, 0], [3, 2, 0]],
            N_votes = 7, N_candidates = 3\<rparr>
     = Some (Inr \<lparr>ranking = [''A'', ''B''], ineligible_candidates = [''C'']\<rparr>) \<and>
   mset [''A'', ''B''] + mset [''C''] = mset [''A'', ''B'', ''C''] \<and>
   set [''A'', ''B''] \<inter> set [''C''] = {}"
proof -
  let ?V = "[[Some 1, Some 2, None], [Some 1, Some 2, None], [Some 1, Some 2, None],
            [Some 2, Some 1, None], [Some 2, Some 1, None],
            [None, None, Some 1], [None, None, Some 1]] :: ballot list"
  let ?T = "\<lparr>votes = [[None, Some 2, Some 1], [None, Some 2, Some 1], [None, Some 2, Some 1],
                     [None, Some 1, Some 2], [None, Some 1, Some 2],
                     [Some 1, None, None], [Some 1, None, None]],
            names = [''C'', ''B'', ''A''], counts = [[2, 0, 0], [2, 3, 0], [3, 2, 0]],
            N_votes = 7, N_candidates = 3\<rparr>"
  let ?R = "\<lparr>ranking = [''A'', ''B''], ineligible_candidates = [''C'']\<rparr>"
  have a: "aligned ?V [''A'', ''B'', ''C'']" by (simp add: aligned_def)
  have d: "distinct [''A'', ''B'', ''C'']" by simp
  have t: "new_VoteTable ?V [''A'', ''B'', ''C''] = Inr ?T" by code_simp
  have rr: "runoff_round (tie_prompt (\<lambda>t. ''0'')) ?T
     = Some (Inr (Winner ''A'',
                  \<lparr>votes = [[Some 1], [Some 1], [Some 1], [Some 1], [Some 1], [None], [None]],
                   names = [''A''], counts = [[5]], N_votes = 7, N_candidates = 1\<rparr>))"
    by code_simp
  have r: "instant_runoff (tie_prompt (\<lambda>t. ''0'')) ?T = Some (Inr ?R)" by code_simp
  from instant_runoff_partition [OF a d t, of "\<lambda>t. ''0''"] obtain y where
    y: "instant_runoff (tie_prompt (\<lambda>t. ''0'')) ?T = Some y" and
    c: "case y of
          Inl e \<Rightarrow> e = TypeError \<or> e = AttributeError
        | Inr res \<Rightarrow>
            mset (ranking res) + mset (ineligible_candidates res) = mset [''A'', ''B'', ''C''] \<and>
            distinct (ranking res @ ineligible_candidates res) \<and>
            set (ranking res) \<inter> set (ineligible_candidates res) = {} \<and>
            set (ranking res) \<union> set (ineligible_candidates res) = set [''A'', ''B'', ''C''] \<and>
            length (ranking res) \<le> N_candidates ?T"
    by blast
  have "y = Inr ?R" using y r by simp
  then have p: "mset (ranking ?R) + mset (ineligible_candidates ?R) = mset [''A'', ''B'', ''C'']"
    and q: "set (ranking ?R) \<inter> set (ineligible_candidates ?R) = {}"
    using c by simp_all
  have p': "mset [''A'', ''B''] + mset [''C''] = mset [''A'', ''B'', ''C'']" using p by simp
  have q': "set [''A'', ''B''] \<inter> set [''C''] = {}" using q by simp
  from a d t rr r p' q' show ?thesis by (intro conjI)
qed

text \<open>
  A run that ends with the exception of the prompt: two candidates tie with two first
  places each among four ballots, \<open>check_tied\<close> holds, and \<^verbatim>\<open>print_table\<close> raises.
\<close>

lemma instant_runoff_tie_raises:
  "new_VoteTable [[Some 1, Some 2], [Some 1, Some 2], [Some 2, Some 1], [Some 2, Some 1]] [''A'', ''B'']
     = Inr \<lparr>votes = [[Some 1, Some 2], [Some 1, Some 2], [Some 2, Some 1], [Some 2, Some 1]],
            names = [''A'', ''B''], counts = [[2, 2], [2, 2]], N_votes = 4, N_candidates = 2\<rparr> \<and>
   check_tied
       \<lparr>votes = [[Some 1, Some 2], [Some 1, Some 2], [Some 2, Some 1], [Some 2, Some 1]],
            names = [''A'', ''B''], counts = [[2, 2], [2, 2]], N_votes = 4, N_candidates = 2\<rparr>
     = Inr True \<and>
   instant_runoff (tie_prompt (\<lambda>t. ''0''))
       \<lparr>votes = [[Some 1, Some 2], [Some 1, Some 2], [Some 2, Some 1], [Some 2, Some 1]],
            names = [''A'', ''B''], counts = [[2, 2], [2, 2]], N_votes = 4, N_candidates = 2\<rparr>
     = Some (Inl AttributeError)"
  by code_simp

text \<open>
  Claim C10. Let the table be built from aligned ballots, \<open>N\<close> its number of candidates.
  The automated run ends: it returns its result or raises an exception. Its outcome
  does not depend on what the user types at the prompt, so the ballots and the names
  alone determine it. The rounds are the passes of \<^verbatim>\<open>for rank in range(N)\<close>, at most
  \<open>N\<close>: the round of rank \<open>k\<close>, when the run reaches it, starts from a well-formed table
  with \<open>N - k\<close> candidates, its loop ends, and the loop makes fewer than \<open>N - k\<close>
  eliminations. A run that returns has placed one candidate in each of \<open>N\<close> rounds.
\<close>

theorem instant_runoff_terminates:
  assumes "aligned vs ns" and "new_VoteTable vs ns = Inr table"
  shows "(\<exists>y. instant_runoff (tie_prompt typed) table = Some y) \<and>
         (\<forall>typed'. instant_runoff (tie_prompt typed') table
                      = instant_runoff (tie_prompt typed) table) \<and>
         (\<forall>k t ranked ineligible. k < N_candidates table \<longrightarrow>
            rank_loop (tie_prompt typed) (N_candidates table) [0..<k] (table, [], [])
              = Some (Inr (t, ranked, ineligible)) \<longrightarrow>
            wf_table t \<and> N_candidates t = N_candidates table - k \<and>
            (\<exists>y. runoff_round (tie_prompt typed) t = Some y) \<and>
            (\<forall>j t'. (eliminates (tie_prompt typed) ^^ j) t t' \<longrightarrow> j < N_candidates table - k)) \<and>
         (\<forall>res. instant_runoff (tie_prompt typed) table = Some (Inr res) \<longrightarrow>
            length (ranking res) + length (ineligible_candidates res) = N_candidates table)"
proof (intro conjI allI impI)
  let ?N = "N_candidates table"
  let ?p = "tie_prompt typed"
  note f = new_VoteTable_aligned[OF assms(2,1)]
  have wf: "wf_table table" by (rule new_VoteTable_wf[OF assms(2,1)])
  show "\<exists>y. instant_runoff ?p table = Some y"
    by (rule instant_runoff_ends[OF assms tie_prompt_range])
  {
    fix typed'
    have "tie_prompt typed' = tie_prompt typed" by (rule ext) (simp add: tie_prompt_raises)
    then show "instant_runoff (tie_prompt typed') table = instant_runoff ?p table" by simp
  }
  {
    fix k t ranked ineligible
    assume k: "k < ?N"
      and p: "rank_loop ?p ?N [0..<k] (table, [], []) = Some (Inr (t, ranked, ineligible))"
    have ln: "length (names table) = ?N" using f(4,6) by simp
    from rank_loop_prefix[OF wf ln k p] have w: "wf_table t" and l: "length (names t) = ?N - k"
      by auto
    show "wf_table t" by (rule w)
    show n: "N_candidates t = ?N - k" using w l by (simp add: wf_table_def)
    show "\<exists>y. runoff_round ?p t = Some y" by (rule runoff_round_terminates[OF w tie_prompt_range])
    {
      fix j t' assume "(eliminates ?p ^^ j) t t'"
      from eliminations_bound[OF this w tie_prompt_range] show "j < ?N - k" using n by simp
    }
  }
  {
    fix res assume "instant_runoff ?p table = Some (Inr res)"
    then show "length (ranking res) + length (ineligible_candidates res) = ?N"
      by (rule instant_runoff_count[OF assms])
  }
qed

theorem instant_runoff_terminates_witness:
  "aligned [[Some 1, Some 2, None], [Some 1, Some 2, None], [Some 1, Some 2, None],
            [Some 2, Some 1, None], [Some 2, Some 1, None],
            [None, None, Some 1], [None, None, Some 1]] [''A'', ''B'', ''C''] \<and>
   new_VoteTable [[Some 1, Some 2, None], [Some 1, Some 2, None], [Some 1, Some 2, None],
                  [Some 2, Some 1, None], [Some 2, Some 1, None],
                  [None, None, Some 1], [None, None, Some 1]] [''A'', ''B'', ''C'']
     = Inr \<lparr>votes = [[None, Some 2, Some 1], [None, Some 2, Some 1], [None, Some 2, Some 1],
                     [None, Some 1, Some 2], [None, Some 1, Some 2],
                     [Some 1, None, None], [Some 1, None, None]],
            names = [''C'', ''B'', ''A''], counts = [[2, 0, 0], [2, 3, 0], [3, 2, 0]],
            N_votes = 7, N_candidates = 3\<rparr> \<and>
   instant_runoff (tie_prompt (\<lambda>t. ''0''))
       \<lparr>votes = [[None, Some 2, Some 1], [None, Some 2, Some 1], [None, Some 2, Some 1],
                     [None, Some 1, Some 2], [None, Some 1, Some 2],
                     [Some 1, None, None], [Some 1, None, None]],
            names = [''C'', ''B'', ''A''], counts = [[2, 0, 0], [2, 3, 0], [3, 2, 0]],
            N_votes = 7, N_candidates = 3\<rparr>
     = Some (Inr \<lparr>ranking = [''A'', ''B''], ineligible_candidates = [''C'']\<rparr>) \<and>
   instant_runoff (tie_prompt (\<lambda>t. ''1''))
       \<lparr>votes = [[None, Some 2, Some 1], [None, Some 2, Some 1], [None, Some 2, Some 1],
                     [None, Some 1, Some 2], [None, Some 1, Some 2],
                     [Some 1, None, None], [Some 1, None, None]],
            names = [''C'', ''B'', ''A''], counts = [[2, 0, 0], [2, 3, 0], [3, 2, 0]],
            N_votes = 7, N_candidates = 3\<rparr>
     = Some (Inr \<lparr>ranking = [''A'', ''B''], ineligible_candidates = [''C'']\<rparr>) \<and>
   length [''A'', ''B''] + length [''C''] = (3::nat) \<and>
   (eliminates (tie_prompt (\<lambda>t. ''0'')) ^^ 2)
       \<lparr>votes = [[None, Some 2, Some 1], [None, Some 2, Some 1], [None, Some 2, Some 1],
                     [None, Some 1, Some 2], [None, Some 1, Some 2],
                     [Some 1, None, None], [Some 1, None, None]],
            names = [''C'', ''B'', ''A''], counts = [[2, 0, 0], [2, 3, 0], [3, 2, 0]],
            N_votes = 7, N_candidates = 3\<rparr>
       \<lparr>votes = [[Some 1], [Some 1], [Some 1], [Some 1], [Some 1], [None], [None]],
        names = [''A''], counts = [[5]], N_votes = 7, N_candidates = 1\<rparr> \<and>
   (2::nat) < 3 - 0"
proof -
  let ?V = "[[Some 1, Some 2, None], [Some 1, Some 2, None], [Some 1, Some 2, None],
            [Some 2, Some 1, None], [Some 2, Some 1, None],
            [None, None, Some 1], [None, None, Some 1]] :: ballot list"
  let ?T = "\<lparr>votes = [[None, Some 2, Some 1], [None, Some 2, Some 1], [None, Some 2, Some 1],
                     [None, Some 1, Some 2], [None, Some 1, Some 2],
                     [Some 1, None, None], [Some 1, None, None]],
            names = [''C'', ''B'', ''A''], counts = [[2, 0, 0], [2, 3, 0], [3, 2, 0]],
            N_votes = 7, N_candidates = 3\<rparr>"
  let ?T1 = "\<lparr>votes = [[Some 2, Some 1], [Some 2, Some 1], [Some 2, Some 1],
                      [Some 1, Some 2], [Some 1, Some 2], [None, None], [None, None]],
             names = [''B'', ''A''], counts = [[2, 3], [3, 2]], N_votes = 7, N_candidates = 2\<rparr>"
  let ?T2 = "\<lparr>votes = [[Some 1], [Some 1], [Some 1], [Some 1], [Some 1], [None], [None]],
             names = [''A''], counts = [[5]], N_votes = 7, N_candidates = 1\<rparr>"
  let ?R = "\<lparr>ranking = [''A'', ''B''], ineligible_candidates = [''C'']\<rparr>"
  let ?p = "tie_prompt (\<lambda>t. ''0'')"
  have a: "aligned ?V [''A'', ''B'', ''C'']" by (simp add: aligned_def)
  have t: "new_VoteTable ?V [''A'', ''B'', ''C''] = Inr ?T" by code_simp
  have r: "instant_runoff ?p ?T = Some (Inr ?R)" by code_simp
  note run = instant_runoff_terminates [OF a t, of "\<lambda>t. ''0''"]
  have "instant_runoff (tie_prompt (\<lambda>t. ''1'')) ?T = instant_runoff ?p ?T"
    by (rule run [THEN conjunct2, THEN conjunct1, rule_format])
  then have r': "instant_runoff (tie_prompt (\<lambda>t. ''1'')) ?T = Some (Inr ?R)" using r by simp
  have "length (ranking ?R) + length (ineligible_candidates ?R) = N_candidates ?T"
    by (rule run [THEN conjunct2, THEN conjunct2, THEN conjunct2, rule_format, OF r])
  then have n: "length [''A'', ''B''] + length [''C''] = (3::nat)" by simp
  have e1: "eliminates ?p ?T ?T1" by code_simp
  have e2: "eliminates ?p ?T1 ?T2" by code_simp
  have "(eliminates ?p ^^ 0) ?T ?T" by (simp only: relpowp.simps)
  then have "(eliminates ?p ^^ Suc 0) ?T ?T1" using e1 by (rule relpowp_Suc_I)
  then have "(eliminates ?p ^^ Suc (Suc 0)) ?T ?T2" using e2 by (rule relpowp_Suc_I)
  then have e: "(eliminates ?p ^^ 2) ?T ?T2" by (simp only: numeral_2_eq_2)
  have k: "0 < N_candidates ?T" by simp
  have p0: "rank_loop ?p (N_candidates ?T) [0..<0] (?T, [], []) = Some (Inr (?T, [], []))"
    by simp
  note round = run [THEN conjunct2, THEN conjunct2, THEN conjunct1, rule_format, OF k p0]
  have "2 < N_candidates ?T - 0"
    by (rule round [THEN conjunct2, THEN conjunct2, THEN conjunct2, rule_format, OF e])
  then have b: "(2::nat) < 3 - 0" by simp
  from a t r r' n e b show ?thesis by (intro conjI)
qed

section \<open>Elimination of one candidate\<close>

lemma get_rank_order_mono:
  assumes "i < length xs" "j < length xs" "xs ! i = Some a" "xs ! j = Some b" "a < b"
  shows "\<exists>p q. get_rank_order xs ! i = Some p \<and> get_rank_order xs ! j = Some q \<and> p < q"
proof -
  from sorted_indices_order[OF assms] obtain p q where pq: "p < q" "q < length (sorted_indices xs)"
      "sorted_indices xs ! p = i" "sorted_indices xs ! q = j"
    by auto
  then have "get_rank_order xs ! i = Some (int p + 1)" "get_rank_order xs ! j = Some (int q + 1)"
    using get_rank_order_pos[of p xs] get_rank_order_pos[of q xs] by auto
  then show ?thesis using pq(1) by simp
qed

lemma built_cell_by_name:
  assumes t: "new_VoteTable vs ns = Inr t" and al: "aligned vs ns" and a: "a < length ns"
  shows "\<exists>j < length ns. names t ! a = ns ! j \<and>
           (\<forall>k < length vs. votes t ! k ! a = get_rank_order (vs ! k) ! j)"
proof -
  note f = new_VoteTable_aligned[OF t al]
  have wf: "wf_table t" by (rule new_VoteTable_wf[OF t al])
  note c = wf_table_columns[OF wf]
  let ?n = "length ns"
  let ?vs = "map get_rank_order vs"
  let ?cols = "p3zip ?vs"
  have vne: "?vs \<noteq> []" using f(1) by simp
  have rect: "\<forall>row \<in> set ?vs. length row = ?n"
    using al by (auto simp: aligned_def list_all_iff get_rank_order_length)
  have la: "a < length (entries t)" using a c(1,4) f(6) by (simp add: entries_def)
  then have "entries t ! a \<in> set (entries t)" by (rule nth_mem)
  then have "entries t ! a \<in># mset (entries t)" by simp
  then have "entries t ! a \<in> set (map (\<lambda>i. (histogram ?n (?cols ! i), ?cols ! i, ns ! i)) [0..<?n])"
    unfolding f(10) by simp
  then obtain j where j: "j < ?n" and
    e: "entries t ! a = (histogram ?n (?cols ! j), ?cols ! j, ns ! j)" by auto
  have ea: "entries t ! a = (counts t ! a, p3zip (votes t) ! a, names t ! a)"
    using a c(1,4) f(6) by (simp add: entries_def)
  have nm: "names t ! a = ns ! j" and col: "p3zip (votes t) ! a = ?cols ! j"
    using e ea by auto
  have ca: "p3zip (votes t) ! a = map (\<lambda>b. b ! a) (votes t)" using c(3)[of a] a f(6) by simp
  have cj: "?cols ! j = map (\<lambda>row. row ! j) ?vs" by (rule p3zip_rect_nth[OF vne rect j])
  have "votes t ! k ! a = get_rank_order (vs ! k) ! j" if k: "k < length vs" for k
  proof -
    have "votes t ! k ! a = (p3zip (votes t) ! a) ! k" using ca k f(5) by simp
    also have "\<dots> = (?cols ! j) ! k" using col by simp
    also have "\<dots> = get_rank_order (vs ! k) ! j" using cj k by simp
    finally show ?thesis .
  qed
  then show ?thesis using j nm by blast
qed

lemma p3zip_delete_column:
  assumes "wf_table t" and "k < length (votes t)"
    and ne: "take i (p3zip (votes t)) @ drop (i + 1) (p3zip (votes t)) \<noteq> []"
  shows "p3zip (take i (p3zip (votes t)) @ drop (i + 1) (p3zip (votes t))) ! k
           = take i (votes t ! k) @ drop (i + 1) (votes t ! k)"
proof -
  let ?cols = "p3zip (votes t)"
  let ?new = "take i ?cols @ drop (i + 1) ?cols"
  note c = wf_table_columns[OF assms(1)]
  have vne: "votes t \<noteq> []" and rectv: "\<forall>row \<in> set (votes t). length row = length (names t)"
    and npos: "0 < length (names t)"
    using assms(1) by (auto simp: wf_table_def aligned_def list_all_iff)
  have rect: "\<forall>col \<in> set ?new. length col = length (votes t)"
    using c(2) by (auto dest: in_set_takeD in_set_dropD)
  have cne: "?cols \<noteq> []" using c(1) npos by auto
  have "p3zip ?cols ! k = map (\<lambda>col. col ! k) ?cols"
    by (rule p3zip_rect_nth[OF cne c(2) assms(2)])
  then have row: "map (\<lambda>col. col ! k) ?cols = votes t ! k"
    using p3zip_involution[OF vne rectv npos] by simp
  have "p3zip ?new ! k = map (\<lambda>col. col ! k) ?new"
    by (rule p3zip_rect_nth[OF ne rect assms(2)])
  also have "\<dots> = take i (map (\<lambda>col. col ! k) ?cols) @ drop (i + 1) (map (\<lambda>col. col ! k) ?cols)"
    by (simp add: take_map drop_map)
  finally show ?thesis using row by simp
qed

lemma nth_delete:
  assumes "j < length xs - 1" 
  shows "(take i xs @ drop (i + 1) xs) ! j = xs ! (if j < i then j else Suc j)"
  using assms by (auto simp: nth_append min_def)

lemma eliminated_cell_by_name:
  assumes wf: "wf_table t" and d: "distinct (names t)" and i: "i < N_candidates t"
    and e: "with_candidate_eliminated t i = Inr t'"
    and a': "a' < length (names t')" and a: "a < length (names t)"
    and nm: "names t' ! a' = names t ! a"
  shows "\<exists>j < length (names t) - 1.
           (\<forall>b. length b = length (names t) \<longrightarrow>
                (take i b @ drop (i + 1) b) ! j = b ! a) \<and>
           (\<forall>k < length (votes t).
              votes t' ! k ! a' =
                get_rank_order (take i (votes t ! k) @ drop (i + 1) (votes t ! k)) ! j)"
proof -
  let ?cols = "p3zip (votes t)"
  let ?new = "take i ?cols @ drop (i + 1) ?cols"
  let ?nn = "take i (names t) @ drop (i + 1) (names t)"
  let ?n = "length (names t)"
  have n: "N_candidates t = ?n" using wf by (simp add: wf_table_def)
  have bt: "new_VoteTable (p3zip ?new) ?nn = Inr t'"
    using e by (simp add: with_candidate_eliminated_def votes_by_candidate_def Let_def)
  have al: "aligned (p3zip ?new) ?nn" by (rule eliminated_input_aligned[OF wf])
  note f = new_VoteTable_aligned[OF bt al]
  note c = wf_table_columns[OF wf]
  have lnn: "length ?nn = ?n - 1" using i n by simp
  have nne: "?new \<noteq> []"
  proof
    assume "?new = []"
    then have "p3zip ?new = []" by (simp only: p3zip_Nil)
    then show False using f(1) by simp
  qed
  have rect: "\<forall>col \<in> set ?new. length col = length (votes t)"
    using c(2) by (auto dest: in_set_takeD in_set_dropD)
  have lrows: "length (p3zip ?new) = length (votes t)" by (rule p3zip_rect_length[OF nne rect])
  have a'': "a' < length ?nn" using a' f(6) by simp
  from built_cell_by_name[OF bt al a''] obtain j where j: "j < length ?nn"
    and nj: "names t' ! a' = ?nn ! j"
    and cells: "\<forall>k < length (p3zip ?new). votes t' ! k ! a' = get_rank_order (p3zip ?new ! k) ! j"
    by blast
  let ?s = "if j < i then j else Suc j"
  have j1: "j < ?n - 1" using j lnn by simp
  have "?nn ! j = names t ! ?s" by (rule nth_delete[OF j1])
  then have "names t ! a = names t ! ?s" using nj nm by simp
  moreover have "?s < ?n" using j1 by auto
  ultimately have as: "a = ?s" using d a by (simp add: nth_eq_iff_index_eq)
  have del: "(take i b @ drop (i + 1) b) ! j = b ! a" if "length b = ?n" for b :: "'x list"
    using nth_delete[of j b i] j1 that as by simp
  have "votes t' ! k ! a' = get_rank_order (take i (votes t ! k) @ drop (i + 1) (votes t ! k)) ! j"
    if k: "k < length (votes t)" for k
    using cells k lrows p3zip_delete_column[OF wf k nne] by simp
  then show ?thesis using j1 del by blast
qed

text \<open>
  What a call of \<^verbatim>\<open>with_candidate_eliminated\<close> that returns has built. Let \<open>t\<close> be
  built from aligned ballots with distinct names and \<open>i\<close> be an index of \<open>t\<close>. The new
  table \<open>t'\<close> is well formed (its count vectors are recounted from its own ballots) and
  sorted anew; it has one candidate, one name and one count vector fewer, the same
  number of ballots, each one slot shorter; its names are those of \<open>t\<close> without the
  eliminated one; and every ballot keeps its order among the remaining candidates,
  found by name: a slot is an abstention in \<open>t'\<close> exactly when it was one in \<open>t\<close>, and a
  candidate ranked before another in a ballot of \<open>t\<close> is ranked before it in the same
  ballot of \<open>t'\<close>. The receiver is not changed: no statement of the method or of the
  constructor assigns into a list or a field of it, which is why \<open>t\<close> is a value here.
\<close>

lemma eliminated_returned:
  assumes "aligned vs ns" and "distinct ns" and "new_VoteTable vs ns = Inr t"
    and "i < N_candidates t" and "with_candidate_eliminated t i = Inr t'"
  shows "wf_table t' \<and> sorted_wrt entry_le (entries t') \<and> N_votes t' = N_votes t \<and>
         2 \<le> N_candidates t \<and>
         N_candidates t' = N_candidates t - 1 \<and>
         length (names t') = N_candidates t - 1 \<and>
         length (counts t') = N_candidates t - 1 \<and>
         length (votes t') = length (votes t) \<and>
         (\<forall>b \<in> set (votes t). length b = N_candidates t) \<and>
         (\<forall>b \<in> set (votes t'). length b = N_candidates t - 1) \<and>
         mset (names t') = mset (names t) - {#names t ! i#} \<and>
         (\<forall>k a b a' b'. k < length (votes t) \<and> a < N_candidates t \<and> b < N_candidates t \<and>
             a' < N_candidates t' \<and> b' < N_candidates t' \<and>
             names t' ! a' = names t ! a \<and> names t' ! b' = names t ! b \<longrightarrow>
             ((votes t' ! k ! a' = None) = (votes t ! k ! a = None)) \<and>
             (\<forall>x y. votes t ! k ! a = Some x \<and> votes t ! k ! b = Some y \<and> x < y \<longrightarrow>
                (\<exists>x' y'. votes t' ! k ! a' = Some x' \<and> votes t' ! k ! b' = Some y' \<and> x' < y')))"
proof -
  have wf: "wf_table t" by (rule new_VoteTable_wf[OF assms(3,1)])
  have d: "distinct (names t)"
    using new_VoteTable_names[OF assms(3,1)] assms(2) by (metis mset_eq_imp_distinct_iff)
  have n: "N_candidates t = length (names t)" using wf by (simp add: wf_table_def)
  have wf': "wf_table t'" by (rule eliminated_wf(1)[OF wf assms(5)])
  have bt: "new_VoteTable (p3zip (take i (p3zip (votes t)) @ drop (i + 1) (p3zip (votes t))))
              (take i (names t) @ drop (i + 1) (names t)) = Inr t'"
    using assms(5) by (simp add: with_candidate_eliminated_def votes_by_candidate_def Let_def)
  have srt: "sorted_wrt entry_le (entries t')"
    by (rule new_VoteTable_aligned(9)[OF bt eliminated_input_aligned[OF wf]])
  note v = eliminated_names_valid[OF wf assms(5,4)]
  have n': "N_candidates t' = length (names t')" and pos': "names t' \<noteq> []"
    using wf' by (simp_all add: wf_table_def)
  have two: "2 \<le> N_candidates t" using v(2) n' pos' assms(4)
    by (cases "names t'") auto
  have rows: "\<forall>b \<in> set (votes t). length b = N_candidates t"
    using wf by (simp add: wf_table_def aligned_def list_all_iff)
  have rows': "\<forall>b \<in> set (votes t'). length b = N_candidates t - 1"
    using wf' v(2) by (simp add: wf_table_def aligned_def list_all_iff)
  have lc: "length (counts t') = N_candidates t - 1"
    using wf_table_columns(4)[OF wf'] n' v(2) by simp
  have cells: "((votes t' ! k ! a' = None) = (votes t ! k ! a = None)) \<and>
             (\<forall>x y. votes t ! k ! a = Some x \<and> votes t ! k ! b = Some y \<and> x < y \<longrightarrow>
                (\<exists>x' y'. votes t' ! k ! a' = Some x' \<and> votes t' ! k ! b' = Some y' \<and> x' < y'))"
    if h: "k < length (votes t) \<and> a < N_candidates t \<and> b < N_candidates t \<and>
             a' < N_candidates t' \<and> b' < N_candidates t' \<and>
             names t' ! a' = names t ! a \<and> names t' ! b' = names t ! b" for k a b a' b'
  proof -
    let ?row = "votes t ! k"
    let ?del = "take i ?row @ drop (i + 1) ?row"
    have k: "k < length (votes t)" using h by simp
    have lrow: "length ?row = length (names t)" using rows k n by simp
    have ldel: "length ?del = length (names t) - 1" using lrow assms(4) n by simp
    from eliminated_cell_by_name[OF wf d assms(4,5), of a' a] h n n'
    obtain ja where ja: "ja < length (names t) - 1" "?del ! ja = ?row ! a"
      "votes t' ! k ! a' = get_rank_order ?del ! ja"
      using lrow k by auto
    from eliminated_cell_by_name[OF wf d assms(4,5), of b' b] h n n'
    obtain jb where jb: "jb < length (names t) - 1" "?del ! jb = ?row ! b"
      "votes t' ! k ! b' = get_rank_order ?del ! jb"
      using lrow k by auto
    have none: "(votes t' ! k ! a' = None) = (votes t ! k ! a = None)"
      using get_rank_order_None_iff[of ja ?del] ja ldel by simp
    have ord: "\<exists>x' y'. votes t' ! k ! a' = Some x' \<and> votes t' ! k ! b' = Some y' \<and> x' < y'"
      if "votes t ! k ! a = Some x \<and> votes t ! k ! b = Some y \<and> x < y" for x y
      using get_rank_order_mono[of ja ?del jb x y] ja jb ldel that by simp
    show ?thesis using none ord by blast
  qed
  have ln: "length (names t') = N_candidates t - 1" using n' v(2) by simp
  have lv: "length (votes t') = length (votes t)" by (rule eliminated_wf(3)[OF wf assms(5)])
  have cells_all: "\<forall>k a b a' b'. k < length (votes t) \<and> a < N_candidates t \<and> b < N_candidates t \<and>
             a' < N_candidates t' \<and> b' < N_candidates t' \<and>
             names t' ! a' = names t ! a \<and> names t' ! b' = names t ! b \<longrightarrow>
             ((votes t' ! k ! a' = None) = (votes t ! k ! a = None)) \<and>
             (\<forall>x y. votes t ! k ! a = Some x \<and> votes t ! k ! b = Some y \<and> x < y \<longrightarrow>
                (\<exists>x' y'. votes t' ! k ! a' = Some x' \<and> votes t' ! k ! b' = Some y' \<and> x' < y'))"
    using cells by blast
  have nv: "N_votes t' = N_votes t" using wf wf' lv by (simp add: wf_table_def)
  from wf' srt nv two v(2) ln lc lv rows rows' v(1) cells_all show ?thesis
    by (intro conjI)
qed

text \<open>
  The rebuild sorts anew, so the remaining names need not keep their places: \<open>A\<close> stands
  before \<open>B\<close> in the table below and behind it once \<open>C\<close> is eliminated, since the three
  ballots that ranked \<open>C\<close> first now count for \<open>A\<close>.
\<close>

lemma eliminated_order_may_change:
  "new_VoteTable [[Some 2, Some 3, Some 1], [Some 2, Some 3, Some 1], [Some 2, Some 3, Some 1],
                  [Some 3, Some 1, Some 2], [Some 3, Some 1, Some 2], [Some 1, Some 2, Some 3]]
       [''A'', ''B'', ''C'']
     = Inr \<lparr>votes = [[Some 2, Some 3, Some 1], [Some 2, Some 3, Some 1], [Some 2, Some 3, Some 1],
                     [Some 3, Some 1, Some 2], [Some 3, Some 1, Some 2], [Some 1, Some 2, Some 3]],
            names = [''A'', ''B'', ''C''], counts = [[1, 3, 2], [2, 1, 3], [3, 2, 1]],
            N_votes = 6, N_candidates = 3\<rparr> \<and>
   with_candidate_eliminated
       \<lparr>votes = [[Some 2, Some 3, Some 1], [Some 2, Some 3, Some 1], [Some 2, Some 3, Some 1],
                     [Some 3, Some 1, Some 2], [Some 3, Some 1, Some 2], [Some 1, Some 2, Some 3]],
            names = [''A'', ''B'', ''C''], counts = [[1, 3, 2], [2, 1, 3], [3, 2, 1]],
            N_votes = 6, N_candidates = 3\<rparr> 2
     = Inr \<lparr>votes = [[Some 2, Some 1], [Some 2, Some 1], [Some 2, Some 1],
                     [Some 1, Some 2], [Some 1, Some 2], [Some 2, Some 1]],
            names = [''B'', ''A''], counts = [[2, 4], [4, 2]], N_votes = 6,
            N_candidates = 2\<rparr>"
  by code_simp

text \<open>
  Claim C7 at a failing input. The table built from the ballots \<open>[1, None, 2]\<close> and
  \<open>[None, 2, 1]\<close> over \<open>A\<close>, \<open>B\<close>, \<open>C\<close> has three candidates, in the order \<open>B\<close>, \<open>A\<close>, \<open>C\<close>.
  Eliminating index \<open>2\<close>, an index of the table, returns no table: without \<open>C\<close> the
  candidates \<open>B\<close> and \<open>A\<close> have the count vector \<open>[1, 0]\<close> each, the joint sort of the
  rebuild goes on to their columns \<open>[None, 1]\<close> and \<open>[1, None]\<close>, and comparing \<open>None\<close>
  with \<open>1\<close> raises \<open>TypeError\<close>. It is the call that the automated run on this table
  makes after its first round (lemma \<open>instant_runoff_raises\<close>).
\<close>

theorem with_candidate_eliminated_raises:
  "new_VoteTable [[Some 1, None, Some 2], [None, Some 2, Some 1]] [''A'', ''B'', ''C'']
     = Inr \<lparr>votes = [[None, Some 1, Some 2], [Some 2, None, Some 1]],
            names = [''B'', ''A'', ''C''], counts = [[0, 1, 0], [1, 0, 0], [1, 1, 0]],
            N_votes = 2, N_candidates = 3\<rparr> \<and>
   2 < N_candidates
       \<lparr>votes = [[None, Some 1, Some 2], [Some 2, None, Some 1]],
            names = [''B'', ''A'', ''C''], counts = [[0, 1, 0], [1, 0, 0], [1, 1, 0]],
            N_votes = 2, N_candidates = 3\<rparr> \<and>
   with_candidate_eliminated
       \<lparr>votes = [[None, Some 1, Some 2], [Some 2, None, Some 1]],
            names = [''B'', ''A'', ''C''], counts = [[0, 1, 0], [1, 0, 0], [1, 1, 0]],
            N_votes = 2, N_candidates = 3\<rparr> 2
     = Inl TypeError"
  by code_simp

section \<open>The table of the next rank\<close>



end
